theory Spec2Isabelle
  imports Complex_Main "HOL-Library.Char_ord" "HOL-Library.List_Lexorder"
begin

section \<open>Opinion dynamics with a small sequence model: the program as HOL functions\<close>

text \<open>
  The program is one Python script, \<^verbatim>\<open>llm_opinion_sim.py\<close>. It builds a vocabulary from
  eight training sentences, trains a small network (\<^verbatim>\<open>TinyLLM\<close>) and replays a timeline of
  five events against three agents, blending each agent's opinion with the network's
  prediction.

  Conventions of the embedding:
  \<^item> a Python \<^verbatim>\<open>str\<close> is a \<open>string\<close>; a character stands for the code point of the same
    number (0 to 255);
  \<^item> a Python \<^verbatim>\<open>dict\<close> is an association list in insertion order, its keys distinct;
  \<^item> a \<^verbatim>\<open>torch.long\<close> tensor holds \<open>int\<close>s, a \<^verbatim>\<open>float32\<close> tensor holds \<open>real\<close>s. The
    rounding of \<^verbatim>\<open>float32\<close> is part of the model where the values of opinions are
    made: the literals of the agents (lines 77 to 79), \<^verbatim>\<open>torch.tanh\<close> (line 40) and the
    blend of line 94. The operations before \<^verbatim>\<open>torch.tanh\<close> (the linear layers, the sums
    and the division of the pooling) are exact: the order in which torch's kernels add
    is not in the source. Parameters and inputs so large that \<^verbatim>\<open>float32\<close> would overflow
    in those operations are outside the model;
  \<^item> \<^verbatim>\<open>inf\<close> and \<^verbatim>\<open>nan\<close> are no values of the model: an operation of the script whose
    \<^verbatim>\<open>float32\<close> result is not finite has the result \<open>Inl NonFinite\<close>;
  \<^item> a tensor of rank one is a list, of rank two a list of rows, of rank three a list of
    those;
  \<^item> an exception is a value \<open>Inl e\<close> of the result type \<open>error + 'a\<close>.
\<close>

subsection \<open>Errors\<close>

datatype error =
    KeyError string       \<comment> \<open>\<^verbatim>\<open>vocab[word]\<close> for a word that is not a key\<close>
  | ValueError string     \<comment> \<open>raised by \<^verbatim>\<open>pad_to_max\<close>\<close>
  | IndexError            \<comment> \<open>an embedding index outside the table\<close>
  | ShapeError            \<comment> \<open>torch's \<^verbatim>\<open>RuntimeError\<close> for operands whose shapes do not fit\<close>
  | EncoderError          \<comment> \<open>an exception raised inside the library's encoder\<close>
  | NonFinite             \<comment> \<open>not an exception: a result torch computes as \<^verbatim>\<open>inf\<close> or \<^verbatim>\<open>nan\<close>\<close>

definition bindE :: "error + 'a \<Rightarrow> ('a \<Rightarrow> error + 'b) \<Rightarrow> error + 'b" where
  "bindE r f = (case r of Inl e \<Rightarrow> Inl e | Inr a \<Rightarrow> f a)"

fun mapE :: "('a \<Rightarrow> error + 'b) \<Rightarrow> 'a list \<Rightarrow> error + 'b list" where
  "mapE f [] = Inr []"
| "mapE f (x # xs) = bindE (f x) (\<lambda>y. bindE (mapE f xs) (\<lambda>ys. Inr (y # ys)))"

subsection \<open>Constants (lines 4 and 5)\<close>

definition PAD_IDX :: int where
  "PAD_IDX = 0"

definition MAX_LEN :: nat where
  "MAX_LEN = 6"

subsection \<open>\<^verbatim>\<open>float32\<close>\<close>

text \<open>
  IEEE 754 single precision as a rounding on the reals. The finite \<^verbatim>\<open>float32\<close> numbers
  are the multiples \<open>n * 2 powi (e - 23)\<close> with \<open>\<bar>n\<bar> < 2 ^ 24\<close> and \<open>e\<close> from -126 to
  127. \<open>rne\<close> rounds a real to the nearest integer, a tie to the even one. \<open>expo x\<close> is
  the exponent \<open>e\<close> of the numbers around \<open>x\<close> (-126 for the subnormal ones and for 0),
  \<open>ulp x\<close> their spacing, and \<open>fl x\<close> the multiple of \<open>ulp x\<close> nearest to \<open>x\<close>: rounding
  to nearest, ties to even, with no bound on the exponent above.
\<close>

definition rne :: "real \<Rightarrow> int" where
  "rne y = (let n = \<lfloor>y\<rfloor>; r = y - of_int n in
     if r < 1/2 then n else if 1/2 < r then n + 1 else if even n then n else n + 1)"

definition expo :: "real \<Rightarrow> int" where
  "expo x = (if x = 0 then -126 else max \<lfloor>log 2 \<bar>x\<bar>\<rfloor> (-126))"

definition ulp :: "real \<Rightarrow> real" where
  "ulp x = 2 powi (expo x - 23)"

definition fl :: "real \<Rightarrow> real" where
  "fl x = (if x = 0 then 0 else of_int (rne (x / ulp x)) * ulp x)"

text \<open>
  The result of one \<^verbatim>\<open>float32\<close> operation whose exact value is \<open>x\<close>. The largest finite
  \<^verbatim>\<open>float32\<close> is the one below \<open>2 ^ 128\<close>; a value that rounds to \<open>2 ^ 128\<close> or beyond is
  \<^verbatim>\<open>inf\<close> in torch, which raises nothing.
\<close>

definition f32 :: "real \<Rightarrow> error + real" where
  "f32 x = (if \<bar>fl x\<bar> < 2 ^ 128 then Inr (fl x) else Inl NonFinite)"

text \<open>
  \<^verbatim>\<open>torch.tanh\<close> on a \<^verbatim>\<open>float32\<close>: the \<^verbatim>\<open>float32\<close> nearest to the hyperbolic tangent (the
  kernel is taken to round correctly). Its magnitude is at most 1, so it is finite.
\<close>

definition torch_tanh :: "real \<Rightarrow> real" where
  "torch_tanh z = fl (tanh z)"

subsection \<open>\<^verbatim>\<open>str.split()\<close>\<close>

text \<open>
  Python's \<^verbatim>\<open>str.isspace\<close> on the code points below 256: tab to carriage return, the four
  separators 28 to 31, the space, NEL (133) and the no-break space (160).
\<close>

definition isspace :: "char \<Rightarrow> bool" where
  "isspace c = (let n = (of_char c :: nat) in
     (9 \<le> n \<and> n \<le> 13) \<or> (28 \<le> n \<and> n \<le> 32) \<or> n = 133 \<or> n = 160)"

text \<open>
  \<^verbatim>\<open>text.split()\<close> with no argument: the maximal runs of characters that are not
  whitespace, in order; no empty word. \<open>split_from w cs\<close> reads \<open>cs\<close> with \<open>w\<close> the
  word begun so far.
\<close>

fun split_from :: "string \<Rightarrow> string \<Rightarrow> string list" where
  "split_from w [] = (if w = [] then [] else [w])"
| "split_from w (c # cs) =
     (if isspace c then (if w = [] then split_from [] cs else w # split_from [] cs)
      else split_from (w @ [c]) cs)"

definition str_split :: "string \<Rightarrow> string list" where
  "str_split text = split_from [] text"

subsection \<open>\<^verbatim>\<open>build_vocab\<close> (lines 6 to 12)\<close>

type_synonym vocab = "(string \<times> int) list"

type_synonym sample = "string \<times> real list \<times> real list"

text \<open>The set comprehension of line 7: every word of every sample's text.\<close>

definition sample_words :: "sample list \<Rightarrow> string set" where
  "sample_words samples = set (concat (map (\<lambda>s. str_split (fst s)) samples))"

text \<open>One turn of the loop of lines 9 to 11: a word that is no key yet gets the next id.\<close>

definition add_word :: "vocab \<Rightarrow> string \<Rightarrow> vocab" where
  "add_word vocab word =
     (if word \<notin> fst ` set vocab then vocab @ [(word, int (length vocab))] else vocab)"

definition build_vocab :: "sample list \<Rightarrow> vocab" where
  "build_vocab samples =
     foldl add_word [(''<pad>'', PAD_IDX)] (sorted_list_of_set (sample_words samples))"

text \<open>
  The words of the samples other than the placeholder, in sorted order: the words the loop
  of lines 9 to 11 gives a new id.
\<close>

definition other_words :: "sample list \<Rightarrow> string list" where
  "other_words samples = filter (\<lambda>w. w \<noteq> ''<pad>'') (sorted_list_of_set (sample_words samples))"

subsection \<open>\<^verbatim>\<open>encode\<close> and \<^verbatim>\<open>pad_to_max\<close> (lines 14 to 20)\<close>

text \<open>
  The list comprehension of line 15 looks the words up from left to right; the first word
  that is no key raises \<^verbatim>\<open>KeyError\<close>.
\<close>

definition lookup :: "vocab \<Rightarrow> string \<Rightarrow> error + int" where
  "lookup vocab word = (case map_of vocab word of None \<Rightarrow> Inl (KeyError word) | Some i \<Rightarrow> Inr i)"

definition encode :: "string \<Rightarrow> vocab \<Rightarrow> error + int list" where
  "encode text vocab = mapE (lookup vocab) (str_split text)"

definition pad_to_max :: "int list \<Rightarrow> error + int list" where
  "pad_to_max tokens =
     (if length tokens > MAX_LEN then Inl (ValueError ''Text longer than MAX_LEN'')
      else Inr (tokens @ replicate (MAX_LEN - length tokens) PAD_IDX))"

subsection \<open>Tensors and the library layers\<close>

type_synonym vec = "real list"

type_synonym mat = "real list list"

type_synonym tensor3 = "real list list list"

text \<open>
  \<^verbatim>\<open>nn.Embedding(vocab_size, d_model)\<close>: a table with one row per id. An id outside the
  table raises \<^verbatim>\<open>IndexError\<close>.
\<close>

record Embedding =
  num_embeddings :: nat
  embedding_dim :: nat
  emb_weight :: mat

definition embedding :: "Embedding \<Rightarrow> int \<Rightarrow> error + vec" where
  "embedding e i =
     (if 0 \<le> i \<and> i < int (num_embeddings e) then Inr (emb_weight e ! nat i) else Inl IndexError)"

text \<open>
  \<^verbatim>\<open>nn.Linear(in_features, out_features)\<close>: \<open>y = W x + b\<close> on the last axis, which must
  have \<open>in_features\<close> entries.
\<close>

record Linear =
  in_features :: nat
  out_features :: nat
  weight :: mat
  bias :: vec

definition dot :: "vec \<Rightarrow> vec \<Rightarrow> real" where
  "dot w x = sum_list (map2 (*) w x)"

definition linear :: "Linear \<Rightarrow> vec \<Rightarrow> error + vec" where
  "linear l x =
     (if length x = in_features l then Inr (map2 (\<lambda>w b. dot w x + b) (weight l) (bias l))
      else Inl ShapeError)"

text \<open>
  Broadcasting along one axis: two operands of the same size are paired entry by entry, an
  operand of size one is repeated, anything else is a shape error.
\<close>

definition broadcast :: "'a list \<Rightarrow> 'b list \<Rightarrow> error + ('a \<times> 'b) list" where
  "broadcast xs ys =
     (if length xs = length ys then Inr (zip xs ys)
      else if length xs = 1 then Inr (map (\<lambda>y. (hd xs, y)) ys)
      else if length ys = 1 then Inr (map (\<lambda>x. (x, hd ys)) xs)
      else Inl ShapeError)"

definition vec_add :: "vec \<Rightarrow> vec \<Rightarrow> error + vec" where
  "vec_add a b = bindE (broadcast a b) (\<lambda>ps. Inr (map (\<lambda>(x, y). x + y) ps))"

definition mat_add :: "mat \<Rightarrow> mat \<Rightarrow> error + mat" where
  "mat_add a b = bindE (broadcast a b) (\<lambda>ps. mapE (\<lambda>(x, y). vec_add x y) ps)"

text \<open>
  \<^verbatim>\<open>h.masked_fill(mask.unsqueeze(-1), 0.0)\<close>: where the mask is true the whole vector of the
  position is overwritten with the value, whatever it held. \<open>h\<close> has one vector per
  position of the mask.
\<close>

definition masked_fill :: "tensor3 \<Rightarrow> bool list list \<Rightarrow> real \<Rightarrow> error + tensor3" where
  "masked_fill h pmask v =
     (if map length h = map length pmask
      then Inr (map2 (\<lambda>hr mr. map2 (\<lambda>p b. if b then map (\<lambda>_. v) p else p) hr mr) h pmask)
      else Inl ShapeError)"

text \<open>
  \<^verbatim>\<open>mask.logical_not().sum(dim=1, keepdim=True)\<close>, the number of positions of each row that
  are not padding, and the same clamped with \<^verbatim>\<open>.clamp(min=1)\<close> (line 37).
\<close>

definition count_nonpad :: "bool list \<Rightarrow> int" where
  "count_nonpad mr = int (length (filter (\<lambda>b. b) (map Not mr)))"

definition lengths_of :: "bool list list \<Rightarrow> int list" where
  "lengths_of pmask = map (\<lambda>mr. max 1 (count_nonpad mr)) pmask"

text \<open>\<^verbatim>\<open>h.sum(dim=1)\<close> for one row of the batch: the sum of its position vectors, of size \<open>d\<close>.\<close>

definition sum_dim1 :: "nat \<Rightarrow> mat \<Rightarrow> vec" where
  "sum_dim1 d hr = foldr (map2 (+)) hr (replicate d 0)"

text \<open>
  Division of a float row by an integer count. torch raises nothing here: a zero divisor
  gives \<^verbatim>\<open>inf\<close> or \<^verbatim>\<open>nan\<close> in every entry. \<open>real\<close> has no such values (and \<open>x / 0 = 0\<close>
  in HOL), so that outcome is the value \<open>Inl NonFinite\<close>.
\<close>

definition true_divide :: "vec \<Rightarrow> int \<Rightarrow> error + vec" where
  "true_divide s n = (if n = 0 then Inl NonFinite else Inr (map (\<lambda>x. x / of_int n) s))"

text \<open>Lines 36 to 38: masked mean pooling of the encoder's output.\<close>

definition pool :: "nat \<Rightarrow> tensor3 \<Rightarrow> bool list list \<Rightarrow> error + mat" where
  "pool d h pmask =
     bindE (masked_fill h pmask 0) (\<lambda>h'.
     bindE (broadcast (map (sum_dim1 d) h') (lengths_of pmask)) (\<lambda>ps.
       mapE (\<lambda>(s, n). true_divide s n) ps))"

subsection \<open>\<^verbatim>\<open>TinyLLM\<close> (lines 23 to 40)\<close>

text \<open>
  The encoder is the library's \<^verbatim>\<open>nn.TransformerEncoder\<close>; the script only calls it. It is a
  parameter of the model: a function of the embedded batch and the padding mask, and of
  the two pieces of state the library reads without being passed them: the module's
  training flag (on after construction, turned off by \<^verbatim>\<open>model.eval()\<close> in line 75) and
  the state of torch's random generator, from which the dropout layers of
  \<^verbatim>\<open>nn.TransformerEncoderLayer\<close> draw while the module is in training mode (line 27 keeps
  the default rate 0.1). It returns the generator state it leaves behind, or it raises:
  the library's encoder does on a batch that is padding alone, as the loop of line 88
  calls it (evaluation mode, gradients off).
\<close>

type_synonym gen = nat

type_synonym encoder_fn =
  "bool \<Rightarrow> gen \<Rightarrow> tensor3 \<Rightarrow> bool list list \<Rightarrow> error + (tensor3 \<times> gen)"

record TinyLLM =
  emb :: Embedding
  encoder :: encoder_fn
  op_proj :: Linear
  head :: Linear
  training :: bool

definition forward :: "TinyLLM \<Rightarrow> gen \<Rightarrow> int list list \<Rightarrow> mat \<Rightarrow> error + (mat \<times> gen)" where
  "forward m g tokens opinion =
     (let pmask = map (map (\<lambda>t. t = PAD_IDX)) tokens in
      bindE (mapE (mapE (embedding (emb m))) tokens) (\<lambda>x.
      bindE (encoder m (training m) g x pmask) (\<lambda>(h, g').
      bindE (pool (embedding_dim (emb m)) h pmask) (\<lambda>pooled.
      bindE (mapE (linear (op_proj m)) opinion) (\<lambda>proj.
      bindE (mat_add pooled proj) (\<lambda>context.
      bindE (mapE (linear (head m)) context) (\<lambda>y.
        Inr (map (map torch_tanh) y, g'))))))))"

text \<open>\<^verbatim>\<open>model.eval()\<close> (line 75).\<close>

definition eval_mode :: "TinyLLM \<Rightarrow> TinyLLM" where
  "eval_mode m = m\<lparr>training := False\<rparr>"

text \<open>
  The shapes \<^verbatim>\<open>__init__\<close> gives the layers (lines 26 to 30), and what is taken of the
  library's encoder: when it returns, its output has the shape of its input; and it does
  return on a batch that has a row, with a position that is not padding in every row.
  Nothing is taken of it on any other batch.
\<close>

definition Embedding_shape :: "nat \<Rightarrow> nat \<Rightarrow> Embedding \<Rightarrow> bool" where
  "Embedding_shape n d e \<longleftrightarrow>
     num_embeddings e = n \<and> embedding_dim e = d \<and> length (emb_weight e) = n \<and>
     list_all (\<lambda>r. length r = d) (emb_weight e)"

definition Linear_shape :: "nat \<Rightarrow> nat \<Rightarrow> Linear \<Rightarrow> bool" where
  "Linear_shape i k l \<longleftrightarrow>
     in_features l = i \<and> out_features l = k \<and> length (weight l) = k \<and>
     list_all (\<lambda>r. length r = i) (weight l) \<and> length (bias l) = k"

definition keeps_shape :: "encoder_fn \<Rightarrow> bool" where
  "keeps_shape enc \<longleftrightarrow>
     (\<forall>tr g x pmask h g'. enc tr g x pmask = Inr (h, g') \<longrightarrow>
        map (map length) h = map (map length) x) \<and>
     (\<forall>tr g x pmask.
        pmask \<noteq> [] \<and> (\<forall>mr\<in>set pmask. False \<in> set mr) \<and> map length x = map length pmask \<longrightarrow>
        (\<exists>h g'. enc tr g x pmask = Inr (h, g')))"

definition constructed :: "nat \<Rightarrow> nat \<Rightarrow> nat \<Rightarrow> TinyLLM \<Rightarrow> bool" where
  "constructed vocab_size opinion_dim d_model m \<longleftrightarrow>
     Embedding_shape vocab_size d_model (emb m) \<and> keeps_shape (encoder m) \<and>
     Linear_shape opinion_dim d_model (op_proj m) \<and> Linear_shape d_model opinion_dim (head m)"

subsection \<open>The simulation (lines 75 to 95)\<close>

definition train_samples :: "sample list" where
  "train_samples =
    [(''climate change urgent action'', [0.1, -0.2, 0.0], [0.8, -0.3, 0.2]),
     (''renewable energy breakthrough'', [0.3, -0.1, 0.2], [0.9, -0.1, 0.5]),
     (''tax cuts boost economy'', [-0.2, 0.2, 0.1], [-0.4, 0.8, 0.2]),
     (''automation job loss fears'', [-0.1, 0.3, 0.4], [-0.2, 0.1, -0.6]),
     (''ai ethics regulation'', [0.0, -0.2, 0.5], [0.2, -0.4, 0.3]),
     (''economic downturn recession'', [0.2, 0.4, -0.1], [0.3, -0.6, -0.3]),
     (''tech innovation boom'', [0.1, -0.3, 0.2], [0.2, -0.2, 0.8]),
     (''green jobs program'', [0.4, -0.1, 0.0], [0.9, 0.3, 0.1])]"

text \<open>
  The agents of lines 76 to 80: \<^verbatim>\<open>torch.tensor(..., dtype=torch.float32)\<close> rounds each
  literal to \<^verbatim>\<open>float32\<close>.
\<close>

definition agents_0 :: "(string \<times> vec) list" where
  "agents_0 =
    [(''Ava'', map fl [0.2, -0.1, 0.1]),
     (''Ben'', map fl [-0.3, 0.4, -0.2]),
     (''Chen'', map fl [0.5, -0.2, 0.6])]"

definition timeline :: "string list" where
  "timeline =
    [''climate change urgent action'',
     ''green jobs program'',
     ''tax cuts boost economy'',
     ''automation job loss fears'',
     ''tech innovation boom'']"

text \<open>
  Line 94: \<^verbatim>\<open>0.7 * opinion + 0.3 * update\<close>, on two \<^verbatim>\<open>float32\<close> tensors of rank one. The
  scalars are taken to \<^verbatim>\<open>float32\<close>, the type of the tensors, and each of the three
  operations rounds its result: two products and their sum, for every component.
\<close>

definition blend1 :: "real \<Rightarrow> real \<Rightarrow> error + real" where
  "blend1 p u =
     bindE (f32 (fl 0.7 * p)) (\<lambda>a.
     bindE (f32 (fl 0.3 * u)) (\<lambda>b.
       f32 (a + b)))"

definition blend :: "vec \<Rightarrow> vec \<Rightarrow> error + vec" where
  "blend opinion update =
     bindE (broadcast opinion update) (\<lambda>ps. mapE (\<lambda>(p, u). blend1 p u) ps)"

text \<open>
  \<^verbatim>\<open>.squeeze(0)\<close> in line 93 drops the batch axis of a one-row tensor. The call of line 93
  passes one row of tokens and one opinion, so the network returns one row; on anything
  else the tensor would keep rank two, which \<open>vec\<close> does not hold.
\<close>

definition squeeze0 :: "mat \<Rightarrow> error + vec" where
  "squeeze0 out = (case out of [row] \<Rightarrow> Inr row | _ \<Rightarrow> Inl ShapeError)"

text \<open>What the loop prints: the line of a step (line 91) and the line of an agent (line 95).\<close>

datatype line = StepLine nat string | AgentLine string vec

text \<open>
  The inner loop (lines 92 to 95) over the items of the dictionary \<open>agents\<close>. The keys of
  a dictionary are distinct and the loop assigns only to the key it is visiting, so the
  assignment \<^verbatim>\<open>agents[name] = ...\<close> replaces the entry at the position being visited.
  The result is the updated entries, the generator state and the lines printed.
\<close>

fun update_agents ::
  "TinyLLM \<Rightarrow> int list list \<Rightarrow> gen \<Rightarrow> (string \<times> vec) list \<Rightarrow>
     error + ((string \<times> vec) list \<times> gen \<times> line list)" where
  "update_agents m tokens g [] = Inr ([], g, [])"
| "update_agents m tokens g ((name, opinion) # rest) =
     bindE (forward m g tokens [opinion]) (\<lambda>(out, g').
     bindE (squeeze0 out) (\<lambda>update.
     bindE (blend opinion update) (\<lambda>new.
     bindE (update_agents m tokens g' rest) (\<lambda>(rest', g'', lines).
       Inr ((name, new) # rest', g'', AgentLine name new # lines)))))"

text \<open>The state the loop of lines 89 to 95 works on.\<close>

record sim_state =
  model :: TinyLLM
  agents :: "(string \<times> vec) list"
  generator :: gen
  printed :: "line list"

text \<open>The outer loop over \<^verbatim>\<open>enumerate(timeline, 1)\<close>, from step number \<open>step\<close> on.\<close>

fun run_timeline :: "vocab \<Rightarrow> nat \<Rightarrow> string list \<Rightarrow> sim_state \<Rightarrow> error + sim_state" where
  "run_timeline vocab step [] st = Inr st"
| "run_timeline vocab step (event # events) st =
     bindE (encode event vocab) (\<lambda>toks.
     bindE (pad_to_max toks) (\<lambda>tokens.
     bindE (update_agents (model st) [tokens] (generator st) (agents st)) (\<lambda>(agents', g', lines).
       run_timeline vocab (Suc step) events
         (st\<lparr>agents := agents', generator := g',
             printed := printed st @ StepLine step event # lines\<rparr>))))"

text \<open>
  Lines 75 to 95 of \<open>main\<close>, for the model \<open>m\<close> that training left behind and the generator
  state \<open>g\<close> at that moment.
\<close>

definition simulation :: "TinyLLM \<Rightarrow> gen \<Rightarrow> error + sim_state" where
  "simulation m g =
     run_timeline (build_vocab train_samples) 1 timeline
       \<lparr>model = eval_mode m, agents = agents_0, generator = g, printed = []\<rparr>"

subsection \<open>Predicates and inputs the theorems use\<close>

text \<open>The tensor \<open>masked_fill\<close> returns for the value 0.\<close>

definition filled :: "tensor3 \<Rightarrow> bool list list \<Rightarrow> tensor3" where
  "filled h pmask = map2 (\<lambda>hr mr. map2 (\<lambda>p b. if b then map (\<lambda>_. 0) p else p) hr mr) h pmask"

text \<open>
  A valid call of \<open>forward\<close>: every token is an id of the embedding table, every opinion
  has the model's opinion dimension, and there is one opinion for each row of tokens.
\<close>

definition valid_input :: "TinyLLM \<Rightarrow> int list list \<Rightarrow> mat \<Rightarrow> bool" where
  "valid_input m tokens opinion \<longleftrightarrow>
     (\<forall>row\<in>set tokens. \<forall>t\<in>set row. 0 \<le> t \<and> t < int (num_embeddings (emb m))) \<and>
     (\<forall>p\<in>set opinion. length p = in_features (op_proj m)) \<and>
     length opinion = length tokens"

text \<open>A batch of tokens that has a row, and in every row a token that is not padding.\<close>

definition has_tokens :: "int list list \<Rightarrow> bool" where
  "has_tokens tokens \<longleftrightarrow> tokens \<noteq> [] \<and> (\<forall>row\<in>set tokens. \<exists>t\<in>set row. t \<noteq> PAD_IDX)"

text \<open>
  What the library says of a module in evaluation mode: dropout is the identity and draws
  nothing, so a call that returns leaves the generator state as it was.
\<close>

definition keeps_generator :: "encoder_fn \<Rightarrow> bool" where
  "keeps_generator enc \<longleftrightarrow> (\<forall>g x pmask h g'. enc False g x pmask = Inr (h, g') \<longrightarrow> g' = g)"

text \<open>
  How far the rounding of line 94 can take a blended component beyond the two components
  it blends: three roundings, each within half a unit in the last place.
\<close>

definition slack :: "real \<Rightarrow> real \<Rightarrow> real" where
  "slack p u = 2 powi (-22) * max \<bar>p\<bar> \<bar>u\<bar> + 2 powi (-148)"

text \<open>
  One turn of the inner loop (lines 93 and 94) on the entry \<open>a\<close> of \<open>agents\<close>, leaving the
  entry \<open>a'\<close>: the name is kept, and the new opinion is the blend of the old one with the
  network's prediction for the old one, on the batch \<open>tokens\<close> of the event.
\<close>

definition updated_once ::
  "TinyLLM \<Rightarrow> int list list \<Rightarrow> string \<times> vec \<Rightarrow> string \<times> vec \<Rightarrow> bool" where
  "updated_once m tokens a a' \<longleftrightarrow>
     fst a' = fst a \<and>
     (\<exists>g g' update. forward m g tokens [snd a] = Inr ([update], g') \<and>
        blend (snd a) update = Inr (snd a'))"

text \<open>The opinions printed for one agent, in the order of printing.\<close>

fun opinions_of :: "string \<Rightarrow> line list \<Rightarrow> vec list" where
  "opinions_of name [] = []"
| "opinions_of name (StepLine k event # ls) = opinions_of name ls"
| "opinions_of name (AgentLine n v # ls) =
     (if n = name then v # opinions_of name ls else opinions_of name ls)"

text \<open>An opinion with every component in the closed interval from -1 to 1.\<close>

definition within_unit :: "vec \<Rightarrow> bool" where
  "within_unit v \<longleftrightarrow> (\<forall>x\<in>set v. -1 \<le> x \<and> x \<le> 1)"

text \<open>
  A printed line without the opinion it shows, and what the loop of lines 89 to 95 prints
  from step number \<open>step\<close> on, without the opinions: for each event its step line, then
  one line for each agent, in the order of the dictionary.
\<close>

fun erase :: "line \<Rightarrow> line" where
  "erase (StepLine k event) = StepLine k event"
| "erase (AgentLine n v) = AgentLine n []"

fun trace :: "nat \<Rightarrow> string list \<Rightarrow> string list \<Rightarrow> line list" where
  "trace step [] names = []"
| "trace step (event # events) names =
     StepLine step event # map (\<lambda>n. AgentLine n []) names @ trace (Suc step) events names"

text \<open>
  An entry of \<open>agents\<close> before and after some steps: the same name, and an opinion that
  is still within the unit interval if it was.
\<close>

definition carries :: "string \<times> vec \<Rightarrow> string \<times> vec \<Rightarrow> bool" where
  "carries a a' \<longleftrightarrow> fst a' = fst a \<and> (within_unit (snd a) \<longrightarrow> within_unit (snd a'))"

text \<open>A printed line whose opinion, if it shows one, is within the unit interval.\<close>

fun line_within_unit :: "line \<Rightarrow> bool" where
  "line_within_unit (StepLine k event) = True"
| "line_within_unit (AgentLine n v) = within_unit v"

text \<open>
  Small models to run the theorems on. Each has \<open>d_model = 1\<close>. With one feature the
  layer normalisation that ends every layer of the library's encoder returns its bias,
  whatever its input, and that bias is zero as the library sets it up: \<open>zero_encoder\<close>
  stands for such an encoder. It returns zero at every position where the library is
  taken to return, and raises elsewhere; in training mode its dropout draws from the
  generator. \<open>tiny_model\<close> has two ids and one opinion component
  (\<^verbatim>\<open>TinyLLM(2, opinion_dim=1, d_model=1, nhead=1)\<close>, in evaluation mode).
  \<open>saturated_model\<close> is the same model with the bias 20 in its head. \<open>small_model\<close>
  has the 28 ids and the three opinion components of \<open>main\<close>
  (\<^verbatim>\<open>TinyLLM(28, opinion_dim=3, d_model=1, nhead=1)\<close>), all its other parameters zero.
\<close>

definition zero_encoder :: encoder_fn where
  "zero_encoder tr g x pmask =
     (if pmask \<noteq> [] \<and> list_all (\<lambda>mr. False \<in> set mr) pmask
      then Inr (map (map (map (\<lambda>_. 0))) x, if tr then Suc g else g)
      else Inl EncoderError)"

definition tiny_model :: TinyLLM where
  "tiny_model =
     \<lparr>emb = \<lparr>num_embeddings = 2, embedding_dim = 1, emb_weight = [[0], [1]]\<rparr>,
      encoder = zero_encoder,
      op_proj = \<lparr>in_features = 1, out_features = 1, weight = [[1]], bias = [0]\<rparr>,
      head = \<lparr>in_features = 1, out_features = 1, weight = [[1]], bias = [0]\<rparr>,
      training = False\<rparr>"

definition saturated_model :: TinyLLM where
  "saturated_model =
     tiny_model\<lparr>head := \<lparr>in_features = 1, out_features = 1, weight = [[1]], bias = [20]\<rparr>\<rparr>"

definition small_model :: TinyLLM where
  "small_model =
     \<lparr>emb = \<lparr>num_embeddings = 28, embedding_dim = 1, emb_weight = replicate 28 [0]\<rparr>,
      encoder = zero_encoder,
      op_proj = \<lparr>in_features = 3, out_features = 1, weight = [[0, 0, 0]], bias = [0]\<rparr>,
      head = \<lparr>in_features = 1, out_features = 3, weight = [[0], [0], [0]], bias = [0, 0, 0]\<rparr>,
      training = True\<rparr>"

section \<open>Theorems\<close>

subsection \<open>Rounding to \<^verbatim>\<open>float32\<close>\<close>

lemma rne_cases:
  "rne y = \<lfloor>y\<rfloor> \<or> rne y = \<lfloor>y\<rfloor> + 1"
  by (simp add: rne_def Let_def)

lemma rne_error: "\<bar>of_int (rne y) - y\<bar> \<le> 1/2"
  unfolding rne_def Let_def by (auto simp: abs_le_iff)

lemma rne_eqI:
  assumes "of_int n - 1/2 < y" "y < of_int n + 1/2"
  shows "rne y = n"
proof -
  from rne_error [of y] assms have "\<bar>of_int (rne y) - (of_int n :: real)\<bar> < 1"
    by linarith
  then have "\<bar>rne y - n\<bar> < 1"
    by (metis of_int_abs of_int_diff of_int_less_1_iff)
  then show ?thesis by simp
qed

lemma rne_of_int: "rne (of_int n) = n"
  by (rule rne_eqI) simp_all

lemma rne_tie:
  assumes "y = of_int n + 1/2"
  shows "rne y = (if even n then n else n + 1)"
proof -
  from assms have "\<lfloor>y\<rfloor> = n" by linarith
  with assms show ?thesis by (simp add: rne_def Let_def)
qed

lemma rne_mono:
  assumes "a \<le> b"
  shows "rne a \<le> rne b"
proof (cases "\<lfloor>a\<rfloor> = \<lfloor>b\<rfloor>")
  case True
  with assms show ?thesis
    unfolding rne_def Let_def by auto
next
  case False
  with assms have lt: "\<lfloor>a\<rfloor> + 1 \<le> \<lfloor>b\<rfloor>"
    using floor_mono [OF assms] by linarith
  from rne_cases [of a] have "rne a \<le> \<lfloor>a\<rfloor> + 1" by auto
  moreover from rne_cases [of b] have "\<lfloor>b\<rfloor> \<le> rne b" by auto
  ultimately show ?thesis using lt by linarith
qed

lemma rne_minus: "rne (- y) = - rne y"
proof (cases "y = of_int \<lfloor>y\<rfloor> + 1/2")
  case True
  then have "- y = of_int (- \<lfloor>y\<rfloor> - 1) + 1/2" by simp
  from rne_tie [OF this] rne_tie [OF True] show ?thesis by auto
next
  case False
  have "rne (- y) = - rne y"
  proof (rule rne_eqI)
    from rne_error [of y] False rne_cases [of y]
    show "of_int (- rne y) - 1/2 < - y" 
      unfolding rne_def Let_def by (auto split: if_splits) linarith+
    from rne_error [of y] False rne_cases [of y]
    show "- y < of_int (- rne y) + 1/2"
      unfolding rne_def Let_def by (auto split: if_splits) linarith+
  qed
  then show ?thesis .
qed


lemma rne_le: "y \<le> of_int n \<Longrightarrow> rne y \<le> n"
  using rne_mono [of y "of_int n"] by (simp add: rne_of_int)

lemma rne_ge: "of_int n \<le> y \<Longrightarrow> n \<le> rne y"
  using rne_mono [of "of_int n" y] by (simp add: rne_of_int)

lemma powr2_int: "(2::real) powr (real_of_int k) = 2 powi k"
  by (simp add: powr_real_of_int')

lemma powr2_int_Suc: "(2::real) powr (real_of_int k + 1) = 2 powi (k + 1)"
  using powr2_int [of "k + 1"] by simp

lemma floor_log2_bracket:
  assumes "x \<noteq> 0"
  shows "2 powi \<lfloor>log 2 \<bar>x\<bar>\<rfloor> \<le> \<bar>x\<bar>" "\<bar>x\<bar> < 2 powi (\<lfloor>log 2 \<bar>x\<bar>\<rfloor> + 1)"
proof -
  from assms have pos: "0 < \<bar>x\<bar>" by simp
  have "2 powr (real_of_int \<lfloor>log 2 \<bar>x\<bar>\<rfloor>) \<le> \<bar>x\<bar> \<and>
      \<bar>x\<bar> < 2 powr (real_of_int \<lfloor>log 2 \<bar>x\<bar>\<rfloor> + 1)"
    using floor_log_eq_powr_iff [OF pos, of 2 "\<lfloor>log 2 \<bar>x\<bar>\<rfloor>"] by simp
  then show "2 powi \<lfloor>log 2 \<bar>x\<bar>\<rfloor> \<le> \<bar>x\<bar>" "\<bar>x\<bar> < 2 powi (\<lfloor>log 2 \<bar>x\<bar>\<rfloor> + 1)"
    by (simp_all only: powr2_int powr2_int_Suc)
qed

lemma floor_log2_eqI:
  assumes "2 powi k \<le> \<bar>x\<bar>" "\<bar>x\<bar> < 2 powi (k + 1)"
  shows "\<lfloor>log 2 \<bar>x\<bar>\<rfloor> = k"
proof -
  from assms(1) have pos: "0 < \<bar>x\<bar>"
    by (smt (verit) zero_less_power_int)
  from assms have "2 powr (real_of_int k) \<le> \<bar>x\<bar> \<and> \<bar>x\<bar> < 2 powr (real_of_int k + 1)"
    by (simp only: powr2_int powr2_int_Suc)
  then show ?thesis
    using floor_log_eq_powr_iff [OF pos, of 2 k] by simp
qed

lemma expo_eqI:
  assumes "2 powi k \<le> \<bar>x\<bar>" "\<bar>x\<bar> < 2 powi (k + 1)"
  shows "expo x = max k (-126)"
proof -
  from assms(1) have "x \<noteq> 0"
    by (smt (verit) zero_less_power_int)
  with floor_log2_eqI [OF assms] show ?thesis by (simp add: expo_def)
qed

lemma expo_minus: "expo (- x) = expo x"
  by (simp add: expo_def)

lemma ulp_minus: "ulp (- x) = ulp x"
  by (simp add: ulp_def expo_minus)

lemma ulp_pos: "0 < ulp x"
  by (simp add: ulp_def)

lemma expo_ge: "-126 \<le> expo x"
  by (simp add: expo_def)

lemma expo_upper:
  assumes "x \<noteq> 0"
  shows "\<bar>x\<bar> < 2 powi (expo x + 1)"
proof -
  have "(2::real) powi (\<lfloor>log 2 \<bar>x\<bar>\<rfloor> + 1) \<le> 2 powi (expo x + 1)"
    using assms by (intro power_int_increasing) (simp_all add: expo_def)
  with floor_log2_bracket(2) [OF assms] show ?thesis by linarith
qed

lemma expo_lower:
  assumes "x \<noteq> 0" "-126 < expo x"
  shows "2 powi (expo x) \<le> \<bar>x\<bar>"
proof -
  from assms have "expo x = \<lfloor>log 2 \<bar>x\<bar>\<rfloor>" by (simp add: expo_def max_def split: if_splits)
  with floor_log2_bracket(1) [OF assms(1)] show ?thesis by simp
qed

lemma expo_mono:
  assumes "x \<noteq> 0" "\<bar>x\<bar> \<le> \<bar>y\<bar>"
  shows "expo x \<le> expo y"
proof -
  from assms have "log 2 \<bar>x\<bar> \<le> log 2 \<bar>y\<bar>" by simp
  then have "\<lfloor>log 2 \<bar>x\<bar>\<rfloor> \<le> \<lfloor>log 2 \<bar>y\<bar>\<rfloor>" by (rule floor_mono)
  moreover from assms have "y \<noteq> 0" by auto
  ultimately show ?thesis using assms(1) by (simp add: expo_def)
qed

lemma fl_minus: "fl (- x) = - fl x"
  by (simp add: fl_def ulp_minus rne_minus)

lemma fl_nonneg: "0 \<le> x \<Longrightarrow> 0 \<le> fl x"
proof -
  assume "0 \<le> x"
  then have "(of_int 0 :: real) \<le> x / ulp x" using ulp_pos [of x] by simp
  then have "0 \<le> rne (x / ulp x)" by (rule rne_ge)
  then show ?thesis using ulp_pos [of x] by (simp add: fl_def)
qed

lemma fl_error: "\<bar>fl x - x\<bar> \<le> ulp x / 2"
proof (cases "x = 0")
  case True
  then show ?thesis using ulp_pos [of x] by (simp add: fl_def)
next
  case False
  have "fl x - x = (of_int (rne (x / ulp x)) - x / ulp x) * ulp x"
    using False ulp_pos [of x] by (simp add: fl_def left_diff_distrib)
  then have "\<bar>fl x - x\<bar> = \<bar>of_int (rne (x / ulp x)) - x / ulp x\<bar> * ulp x"
    using ulp_pos [of x] by (simp add: abs_mult)
  also have "\<dots> \<le> 1/2 * ulp x"
    using rne_error [of "x / ulp x"] ulp_pos [of x] by (intro mult_right_mono) simp_all
  finally show ?thesis by simp
qed

lemma fl_upper:
  assumes "0 < x"
  shows "fl x \<le> 2 powi (expo x + 1)"
proof -
  from assms have nz: "x \<noteq> 0" by simp
  have u: "2 powi (expo x + 1) = ulp x * 2 ^ 24"
    by (simp add: ulp_def power_int_diff power_int_add)
  from expo_upper [OF nz] assms have "x < ulp x * 2 ^ 24" by (simp add: u)
  then have "x / ulp x \<le> of_int (2 ^ 24)"
    using ulp_pos [of x] by (simp add: field_simps)
  then have "rne (x / ulp x) \<le> 2 ^ 24" by (rule rne_le)
  then have "(of_int (rne (x / ulp x)) :: real) \<le> 2 ^ 24"
    by (metis of_int_le_iff of_int_numeral of_int_power)
  then have "of_int (rne (x / ulp x)) * ulp x \<le> 2 ^ 24 * ulp x"
    using ulp_pos [of x] by (intro mult_right_mono) simp_all
  with u nz show ?thesis by (simp add: fl_def mult.commute)
qed

lemma fl_lower:
  assumes "0 < x" "-126 < expo x"
  shows "2 powi (expo x) \<le> fl x"
proof -
  from assms have nz: "x \<noteq> 0" by simp
  have u: "2 powi (expo x) = ulp x * 2 ^ 23"
    by (simp add: ulp_def power_int_diff)
  from expo_lower [OF nz assms(2)] assms(1) have "ulp x * 2 ^ 23 \<le> x" by (simp add: u)
  then have "of_int (2 ^ 23) \<le> x / ulp x"
    using ulp_pos [of x] by (simp add: field_simps)
  then have "2 ^ 23 \<le> rne (x / ulp x)" by (rule rne_ge)
  then have "(2 ^ 23 :: real) \<le> of_int (rne (x / ulp x))"
    by (metis of_int_le_iff of_int_numeral of_int_power)
  then have "2 ^ 23 * ulp x \<le> of_int (rne (x / ulp x)) * ulp x"
    using ulp_pos [of x] by (intro mult_right_mono) simp_all
  with u nz show ?thesis by (simp add: fl_def mult.commute)
qed

lemma fl_mono_pos:
  assumes "0 < x" "x \<le> y"
  shows "fl x \<le> fl y"
proof (cases "expo x = expo y")
  case True
  then have u: "ulp x = ulp y" by (simp add: ulp_def)
  from assms have "x / ulp y \<le> y / ulp y"
    using ulp_pos [of y] by (simp add: divide_right_mono)
  then have "rne (x / ulp y) \<le> rne (y / ulp y)" by (rule rne_mono)
  then have "(of_int (rne (x / ulp y)) :: real) * ulp y \<le> of_int (rne (y / ulp y)) * ulp y"
    using ulp_pos [of y] by (intro mult_right_mono) simp_all
  with assms u show ?thesis by (simp add: fl_def)
next
  case False
  from assms have "expo x \<le> expo y" by (intro expo_mono) simp_all
  with False have lt: "expo x + 1 \<le> expo y" by simp
  with expo_ge [of x] have "-126 < expo y" by linarith
  from fl_lower [OF _ this] assms have "2 powi (expo y) \<le> fl y" by simp
  moreover have "(2::real) powi (expo x + 1) \<le> 2 powi (expo y)"
    using lt by (intro power_int_increasing) simp_all
  moreover note fl_upper [OF assms(1)]
  ultimately show ?thesis by linarith
qed

lemma fl_mono:
  assumes "x \<le> y"
  shows "fl x \<le> fl y"
proof -
  consider "0 < x" | "x \<le> 0" "0 \<le> y" | "y < 0" by linarith
  then show ?thesis
  proof cases
    case 1
    then show ?thesis using assms by (rule fl_mono_pos)
  next
    case 2
    then have "fl x \<le> 0" using fl_nonneg [of "- x"] by (simp add: fl_minus)
    moreover from 2 have "0 \<le> fl y" by (simp add: fl_nonneg)
    ultimately show ?thesis by simp
  next
    case 3
    with assms have "fl (- y) \<le> fl (- x)" by (intro fl_mono_pos) simp_all
    then show ?thesis by (simp add: fl_minus)
  qed
qed

lemma fl_eval:
  assumes "2 powi k \<le> \<bar>x\<bar>" "\<bar>x\<bar> < 2 powi (k + 1)" "-126 \<le> k"
  shows "fl x = of_int (rne (x / 2 powi (k - 23))) * 2 powi (k - 23)"
proof -
  from expo_eqI [OF assms(1,2)] assms(3) have "expo x = k" by simp
  moreover from assms(1) have "x \<noteq> 0"
    by (smt (verit) zero_less_power_int)
  ultimately show ?thesis by (simp add: fl_def ulp_def)
qed

lemma fl_one: "fl 1 = 1"
proof -
  have "fl 1 = of_int (rne (1 / 2 powi (0 - 23))) * 2 powi (0 - 23)"
    by (rule fl_eval) simp_all
  also have "1 / (2::real) powi (0 - 23) = of_int (2 ^ 23)"
    by (simp add: power_int_minus)
  also have "rne (of_int (2 ^ 23)) = 2 ^ 23" by (rule rne_of_int)
  finally show ?thesis by (simp add: power_int_minus)
qed

lemma fl_abs_le_one: "\<bar>x\<bar> \<le> 1 \<Longrightarrow> \<bar>fl x\<bar> \<le> 1"
proof -
  assume "\<bar>x\<bar> \<le> 1"
  then have "fl x \<le> fl 1" "fl (-1) \<le> fl x" by (simp_all add: fl_mono)
  then show ?thesis by (simp add: fl_one fl_minus)
qed


lemma ulp_bound: "ulp x \<le> 2 powi (-23) * \<bar>x\<bar> + 2 powi (-149)"
proof (cases "-126 < expo x")
  case True
  then have nz: "x \<noteq> 0"
    by (auto simp: expo_def)
  have "ulp x = 2 powi (-23) * 2 powi (expo x)"
    by (simp add: ulp_def power_int_diff power_int_minus field_simps)
  also have "\<dots> \<le> 2 powi (-23) * \<bar>x\<bar>"
    using expo_lower [OF nz True] by (intro mult_left_mono) simp_all
  finally show ?thesis by (smt (verit) zero_less_power_int)
next
  case False
  with expo_ge [of x] have "expo x = -126" by simp
  then have "ulp x = 2 powi (-149)" by (simp add: ulp_def)
  then show ?thesis by simp
qed

lemma fl_error_rel: "\<bar>fl x - x\<bar> \<le> 2 powi (-24) * \<bar>x\<bar> + 2 powi (-150)"
proof -
  have "ulp x / 2 \<le> (2 powi (-23) * \<bar>x\<bar> + 2 powi (-149)) / 2"
    using ulp_bound [of x] by (rule divide_right_mono) simp
  with fl_error [of x]
  have "\<bar>fl x - x\<bar> \<le> (2 powi (-23) * \<bar>x\<bar> + 2 powi (-149)) / 2"
    by (rule order_trans)
  also have "\<dots> = 2 powi (-24) * \<bar>x\<bar> + 2 powi (-150)"
    by (simp add: power_int_minus field_simps)
  finally show ?thesis .
qed

lemma fl_07: "fl 0.7 = 11744051 / 2 ^ 24"
proof -
  have "fl 0.7 = of_int (rne (0.7 / 2 powi (-1 - 23))) * 2 powi (-1 - 23)"
    by (rule fl_eval) (simp_all add: power_int_minus)
  moreover have "rne (0.7 / 2 powi (-1 - 23)) = 11744051"
    by (rule rne_eqI) (simp_all add: power_int_minus)
  ultimately show ?thesis by (simp add: power_int_minus)
qed

lemma fl_03: "fl 0.3 = 5033165 / 2 ^ 24"
proof -
  have "fl 0.3 = of_int (rne (0.3 / 2 powi (-2 - 23))) * 2 powi (-2 - 23)"
    by (rule fl_eval) (simp_all add: power_int_minus)
  moreover have "rne (0.3 / 2 powi (-2 - 23)) = 10066330"
    by (rule rne_eqI) (simp_all add: power_int_minus)
  ultimately show ?thesis by (simp add: power_int_minus)
qed

lemma fl_weights: "fl 0.7 + fl 0.3 = 1" "0 \<le> fl 0.7" "0 \<le> fl 0.3"
  by (simp_all add: fl_07 fl_03)

lemma exp_ge_pow2: "2 ^ n \<le> exp (real n)"
proof -
  have "(2::real) \<le> exp 1" using exp_ge_add_one_self [of 1] by simp
  then have "(2::real) ^ n \<le> exp 1 ^ n" by (intro power_mono) simp_all
  then show ?thesis by (simp add: exp_of_nat_mult [symmetric])
qed

lemma tanh_near_one:
  fixes x :: real
  assumes "14 \<le> x"
  shows "1 - 2 powi (-26) < tanh x" "tanh x < 1"
proof -
  show "tanh x < 1" by (rule tanh_real_lt_1)
  have "2 ^ 28 \<le> exp (real 28)" by (rule exp_ge_pow2)
  also have "\<dots> \<le> exp (2 * x)" using assms by simp
  finally have e: "2 ^ 28 \<le> exp (2 * x)" .
  define E where "E = exp (- 2 * x)"
  have Epos: "0 < E" by (simp add: E_def)
  have "tanh x = (1 - E) / (1 + E)"
    by (simp add: tanh_real_altdef E_def)
  moreover have "1 - (1 - E) / (1 + E) = 2 * E / (1 + E)"
    using Epos by (simp add: field_simps)
  ultimately have "1 - tanh x = 2 * E / (1 + E)"
    by simp
  also have "\<dots> \<le> 2 * E / 1"
    using Epos by (intro divide_left_mono) simp_all
  also have "\<dots> = 2 / exp (2 * x)"
    by (simp add: E_def exp_minus field_simps)
  also have "\<dots> \<le> 2 / 2 ^ 28" using e by (intro divide_left_mono) simp_all
  finally have "1 - tanh x \<le> 2 / 2 ^ 28" .
  then show "1 - 2 powi (-26) < tanh x" by (simp add: power_int_minus)
qed

lemma fl_tanh_saturates:
  fixes x :: real
  assumes "14 \<le> x"
  shows "fl (tanh x) = 1"
proof -
  note t = tanh_near_one [OF assms]
  have "fl (tanh x) = of_int (rne (tanh x / 2 powi (-1 - 23))) * 2 powi (-1 - 23)"
    using t by (intro fl_eval) (simp_all add: power_int_minus)
  moreover have "rne (tanh x / 2 powi (-1 - 23)) = 2 ^ 24"
    using t by (intro rne_eqI) (simp_all add: power_int_minus field_simps)
  ultimately show ?thesis by (simp add: power_int_minus)
qed


lemma blend_one_ulp_above:
  "fl (fl 0.7 * (12246611 / 2 ^ 25)) = 2143157 / 2 ^ 23"
  "fl (fl 0.3 * (12246611 / 2 ^ 25)) = 7347967 / 2 ^ 26"
  "fl (2143157 / 2 ^ 23 + 7347967 / 2 ^ 26) = 3061653 / 2 ^ 23"
proof -
  show "fl (fl 0.7 * (12246611 / 2 ^ 25)) = 2143157 / 2 ^ 23"
  proof -
    have "fl (fl 0.7 * (12246611 / 2 ^ 25)) =
        of_int (rne (fl 0.7 * (12246611 / 2 ^ 25) / 2 powi (-2 - 23))) * 2 powi (-2 - 23)"
      by (rule fl_eval) (simp_all add: fl_07 power_int_minus)
    moreover have "rne (fl 0.7 * (12246611 / 2 ^ 25) / 2 powi (-2 - 23)) = 8572628"
      by (rule rne_eqI) (simp_all add: fl_07 power_int_minus)
    ultimately show ?thesis by (simp add: power_int_minus)
  qed
  show "fl (fl 0.3 * (12246611 / 2 ^ 25)) = 7347967 / 2 ^ 26"
  proof -
    have "fl (fl 0.3 * (12246611 / 2 ^ 25)) =
        of_int (rne (fl 0.3 * (12246611 / 2 ^ 25) / 2 powi (-4 - 23))) * 2 powi (-4 - 23)"
      by (rule fl_eval) (simp_all add: fl_03 power_int_minus)
    moreover have "rne (fl 0.3 * (12246611 / 2 ^ 25) / 2 powi (-4 - 23)) = 14695934"
      by (rule rne_eqI) (simp_all add: fl_03 power_int_minus)
    ultimately show ?thesis by (simp add: power_int_minus)
  qed
  show "fl (2143157 / 2 ^ 23 + 7347967 / 2 ^ 26) = 3061653 / 2 ^ 23"
  proof -
    have "fl (2143157 / 2 ^ 23 + 7347967 / 2 ^ 26) =
        of_int (rne ((2143157 / 2 ^ 23 + 7347967 / 2 ^ 26) / 2 powi (-2 - 23))) * 2 powi (-2 - 23)"
      by (rule fl_eval) (simp_all add: power_int_minus)
    moreover have "rne ((2143157 / 2 ^ 23 + 7347967 / 2 ^ 26) / 2 powi (-2 - 23)) = 12246612"
      using rne_tie [of "(2143157 / 2 ^ 23 + 7347967 / 2 ^ 26) / 2 powi (-2 - 23)" 12246611]
      by (simp add: power_int_minus)
    ultimately show ?thesis by (simp add: power_int_minus)
  qed
qed

lemma fl_abs_bound: "\<bar>fl x\<bar> \<le> (1 + 2 powi (-24)) * \<bar>x\<bar> + 2 powi (-150)"
  using fl_error_rel [of x] by (simp add: algebra_simps)

lemma blend_rounding:
  fixes p u :: real
  defines "B \<equiv> max \<bar>p\<bar> \<bar>u\<bar>"
  defines "r \<equiv> fl (fl (fl 0.7 * p) + fl (fl 0.3 * u))"
  shows "min p u - (2 powi (-22) * B + 2 powi (-148)) \<le> r"
    "r \<le> max p u + (2 powi (-22) * B + 2 powi (-148))"
    "\<bar>fl (fl 0.7 * p)\<bar> \<le> 2 * B + 1" "\<bar>fl (fl 0.3 * u)\<bar> \<le> 2 * B + 1" "\<bar>r\<bar> \<le> 2 * B + 1"
proof -
  define a where "a = fl 0.7 * p"
  define b where "b = fl 0.3 * u"
  define e1 where "e1 = fl a - a"
  define e2 where "e2 = fl b - b"
  define s where "s = fl a + fl b"
  define e3 where "e3 = fl s - s"
  have B0: "0 \<le> B" "\<bar>p\<bar> \<le> B" "\<bar>u\<bar> \<le> B" by (simp_all add: B_def)
  have t: "(2::real) powi (-24) = 1 / 2 ^ 24" "(2::real) powi (-150) = 1 / 2 ^ 150"
    "(2::real) powi (-22) = 1 / 2 ^ 22" "(2::real) powi (-148) = 1 / 2 ^ 148"
    by (simp_all add: power_int_minus field_simps)
  have aa: "\<bar>a\<bar> = fl 0.7 * \<bar>p\<bar>" and bb: "\<bar>b\<bar> = fl 0.3 * \<bar>u\<bar>"
    by (simp_all add: a_def b_def abs_mult fl_07 fl_03)
  have ab: "\<bar>a\<bar> + \<bar>b\<bar> \<le> B"
  proof -
    have "fl 0.7 * \<bar>p\<bar> \<le> fl 0.7 * B" "fl 0.3 * \<bar>u\<bar> \<le> fl 0.3 * B"
      using B0 fl_weights by (simp_all add: mult_left_mono)
    then have "\<bar>a\<bar> + \<bar>b\<bar> \<le> (fl 0.7 + fl 0.3) * B"
      by (simp add: aa bb distrib_right)
    then show ?thesis by (simp add: fl_weights)
  qed
  have a0: "0 \<le> \<bar>a\<bar>" "0 \<le> \<bar>b\<bar>" by simp_all
  have E1: "\<bar>e1\<bar> \<le> 1 / 2 ^ 24 * \<bar>a\<bar> + 1 / 2 ^ 150"
    using fl_error_rel [of a] by (simp add: e1_def t)
  have E2: "\<bar>e2\<bar> \<le> 1 / 2 ^ 24 * \<bar>b\<bar> + 1 / 2 ^ 150"
    using fl_error_rel [of b] by (simp add: e2_def t)
  have E12: "\<bar>e1\<bar> + \<bar>e2\<bar> \<le> 1 / 2 ^ 24 * B + 2 / 2 ^ 150"
  proof -
    have "1 / 2 ^ 24 * (\<bar>a\<bar> + \<bar>b\<bar>) \<le> 1 / 2 ^ 24 * B"
      using ab by (intro mult_left_mono) simp_all
    with E1 E2 show ?thesis by (simp add: distrib_left)
  qed
  have sv: "s = a + b + e1 + e2" by (simp add: s_def e1_def e2_def)
  have S: "\<bar>s\<bar> \<le> B + (1 / 2 ^ 24 * B + 2 / 2 ^ 150)"
    using ab E12 unfolding sv by linarith
  have E3: "\<bar>e3\<bar> \<le> 1 / 2 ^ 24 * \<bar>s\<bar> + 1 / 2 ^ 150"
    using fl_error_rel [of s] by (simp add: e3_def t)
  have "1 / 2 ^ 24 * \<bar>s\<bar> \<le> 1 / 2 ^ 24 * (B + (1 / 2 ^ 24 * B + 2 / 2 ^ 150))"
    using S by (intro mult_left_mono) simp_all
  with E3 have E3': "\<bar>e3\<bar> \<le> 1 / 2 ^ 24 * (B + (1 / 2 ^ 24 * B + 2 / 2 ^ 150)) + 1 / 2 ^ 150"
    by linarith
  have rv: "r = a + b + e1 + e2 + e3"
    by (simp add: r_def a_def b_def s_def e1_def e2_def e3_def)
  have tot: "\<bar>e1\<bar> + \<bar>e2\<bar> + \<bar>e3\<bar> \<le> 1 / 2 ^ 22 * B + 1 / 2 ^ 148"
    using E12 E3' B0(1) by (simp add: algebra_simps)
  have conv: "min p u \<le> a + b" "a + b \<le> max p u"
  proof -
    have w: "fl 0.3 = 1 - fl 0.7" using fl_weights(1) by simp
    have w7: "0 \<le> fl 0.7" "fl 0.7 \<le> 1" by (simp_all add: fl_07)
    have "a + b = u + fl 0.7 * (p - u)" by (simp add: a_def b_def w algebra_simps)
    moreover have "p \<le> u \<Longrightarrow> p - u \<le> fl 0.7 * (p - u)" "p \<le> u \<Longrightarrow> fl 0.7 * (p - u) \<le> 0"
      "u \<le> p \<Longrightarrow> fl 0.7 * (p - u) \<le> p - u" "u \<le> p \<Longrightarrow> 0 \<le> fl 0.7 * (p - u)"
      using w7 by (simp_all add: mult_le_cancel_right1 mult_le_cancel_right2 mult_nonneg_nonpos
          mult_left_le_one_le)
    ultimately show "min p u \<le> a + b" "a + b \<le> max p u"
      by (cases "p \<le> u"; simp add: min_def max_def; linarith)+
  qed
  from conv tot show "min p u - (2 powi (-22) * B + 2 powi (-148)) \<le> r"
    "r \<le> max p u + (2 powi (-22) * B + 2 powi (-148))"
    unfolding rv t by linarith+
  have small: "1 / 2 ^ 24 * B + 2 / 2 ^ 150 \<le> B + 1" "1 / 2 ^ 22 * B + 1 / 2 ^ 148 \<le> B + 1"
    using B0(1) by (simp_all add: algebra_simps)
  show "\<bar>fl (fl 0.7 * p)\<bar> \<le> 2 * B + 1"
    using E1 E12 ab small a0 unfolding e1_def a_def [symmetric] by linarith
  show "\<bar>fl (fl 0.3 * u)\<bar> \<le> 2 * B + 1"
    using E2 E12 ab small a0 unfolding e2_def b_def [symmetric] by linarith
  show "\<bar>r\<bar> \<le> 2 * B + 1"
    using tot ab small unfolding rv by linarith
qed


lemma fl_fixed_weights: "fl (fl 0.7) = fl 0.7" "fl (fl 0.3) = fl 0.3"
proof -
  have "fl (11744051 / 2 ^ 24) =
      of_int (rne (11744051 / 2 ^ 24 / 2 powi (-1 - 23))) * 2 powi (-1 - 23)"
    by (rule fl_eval) (simp_all add: power_int_minus)
  moreover have "rne (11744051 / 2 ^ 24 / 2 powi (-1 - 23)) = 11744051"
    using rne_of_int [of 11744051] by (simp add: power_int_minus)
  ultimately show "fl (fl 0.7) = fl 0.7"
    by (simp add: fl_07 power_int_minus)
  have "fl (5033165 / 2 ^ 24) =
      of_int (rne (5033165 / 2 ^ 24 / 2 powi (-2 - 23))) * 2 powi (-2 - 23)"
    by (rule fl_eval) (simp_all add: power_int_minus)
  moreover have "rne (5033165 / 2 ^ 24 / 2 powi (-2 - 23)) = 10066330"
    using rne_of_int [of 10066330] by (simp add: power_int_minus)
  ultimately show "fl (fl 0.3) = fl 0.3"
    by (simp add: fl_03 power_int_minus)
qed

lemma fl_abs_le:
  assumes "\<bar>x\<bar> \<le> c" "fl c = c"
  shows "\<bar>fl x\<bar> \<le> c"
proof -
  from assms(1) have "x \<le> c" "- c \<le> x" by simp_all
  then have "fl x \<le> fl c" "fl (- c) \<le> fl x" by (simp_all add: fl_mono)
  with assms(2) show ?thesis by (simp add: fl_minus abs_le_iff)
qed

lemma blend_unit:
  assumes "\<bar>p\<bar> \<le> 1" "\<bar>u\<bar> \<le> 1"
  shows "\<bar>fl (fl 0.7 * p)\<bar> \<le> fl 0.7" "\<bar>fl (fl 0.3 * u)\<bar> \<le> fl 0.3"
    "\<bar>fl (fl (fl 0.7 * p) + fl (fl 0.3 * u))\<bar> \<le> 1"
proof -
  have "\<bar>fl 0.7 * p\<bar> \<le> fl 0.7"
    using assms(1) fl_weights(2) by (simp add: abs_mult mult_left_le)
  then show a: "\<bar>fl (fl 0.7 * p)\<bar> \<le> fl 0.7"
    by (rule fl_abs_le) (rule fl_fixed_weights)
  have "\<bar>fl 0.3 * u\<bar> \<le> fl 0.3"
    using assms(2) fl_weights(3) by (simp add: abs_mult mult_left_le)
  then show b: "\<bar>fl (fl 0.3 * u)\<bar> \<le> fl 0.3"
    by (rule fl_abs_le) (rule fl_fixed_weights)
  from a b fl_weights(1) have "\<bar>fl (fl 0.7 * p) + fl (fl 0.3 * u)\<bar> \<le> 1"
    by linarith
  then show "\<bar>fl (fl (fl 0.7 * p) + fl (fl 0.3 * u))\<bar> \<le> 1"
    by (rule fl_abs_le_one)
qed

lemma mapE_Inr_iff:
  "mapE f xs = Inr ys \<longleftrightarrow> map f xs = map Inr ys"
proof (induction xs arbitrary: ys)
  case Nil
  show ?case by auto
next
  case (Cons x xs)
  show ?case
  proof (cases "f x")
    case (Inl e)
    then show ?thesis by (auto simp: bindE_def)
  next
    case (Inr y)
    show ?thesis
    proof (cases "mapE f xs")
      case (Inl e)
      with Inr Cons.IH show ?thesis by (auto simp: bindE_def)
    next
      case inner: (Inr zs)
      with Inr Cons.IH [of zs] show ?thesis by (auto simp: bindE_def)
    qed
  qed
qed

subsection \<open>Encoding and padding\<close>

lemma pad_to_max_short:
  "length tokens \<le> MAX_LEN \<Longrightarrow>
     pad_to_max tokens = Inr (tokens @ replicate (MAX_LEN - length tokens) PAD_IDX)"
  by (simp add: pad_to_max_def)

lemma encode_length:
  assumes "encode text vocab = Inr toks"
  shows "length toks = length (str_split text)"
proof -
  from assms have "map (lookup vocab) (str_split text) = map Inr toks"
    by (simp add: encode_def mapE_Inr_iff)
  then have "length (map (lookup vocab) (str_split text)) = length (map Inr toks)"
    by simp
  then show ?thesis by simp
qed

text \<open>
  Claim C4. When a text has at most \<open>MAX_LEN\<close> (6) words and \<open>encode\<close> returns its
  tokens, \<open>pad_to_max\<close> returns a sequence of exactly \<open>MAX_LEN\<close> entries: the tokens
  first, in order, and \<open>PAD_IDX\<close> (0) in every place after them. On any sequence of more
  than \<open>MAX_LEN\<close> tokens \<open>pad_to_max\<close> raises its \<^verbatim>\<open>ValueError\<close> (the spec's
  \<^verbatim>\<open>SequenceTooLongError\<close>).
\<close>

theorem pad_to_max_encode:
  "(encode text vocab = Inr toks \<and> length (str_split text) \<le> MAX_LEN \<longrightarrow>
      (\<exists>padded. pad_to_max toks = Inr padded \<and> length padded = MAX_LEN \<and>
         take (length (str_split text)) padded = toks \<and>
         drop (length (str_split text)) padded =
           replicate (MAX_LEN - length (str_split text)) PAD_IDX)) \<and>
   (length tokens > MAX_LEN \<longrightarrow>
      pad_to_max tokens = Inl (ValueError ''Text longer than MAX_LEN''))"
proof (intro conjI impI)
  assume a: "encode text vocab = Inr toks \<and> length (str_split text) \<le> MAX_LEN"
  then have len: "length toks = length (str_split text)"
    using encode_length [of "text" vocab toks] by simp
  with a have "pad_to_max toks = Inr (toks @ replicate (MAX_LEN - length toks) PAD_IDX)"
    by (simp add: pad_to_max_short)
  with len a show "\<exists>padded. pad_to_max toks = Inr padded \<and> length padded = MAX_LEN \<and>
         take (length (str_split text)) padded = toks \<and>
         drop (length (str_split text)) padded =
           replicate (MAX_LEN - length (str_split text)) PAD_IDX"
    by simp
next
  assume "MAX_LEN < length tokens"
  then show "pad_to_max tokens = Inl (ValueError ''Text longer than MAX_LEN'')"
    by (simp add: pad_to_max_def)
qed

theorem pad_to_max_encode_witness:
  "(\<exists>padded. pad_to_max [25, 9, 5, 12] = Inr padded \<and> length padded = MAX_LEN \<and>
      take 4 padded = [25, 9, 5, 12] \<and> drop 4 padded = replicate 2 PAD_IDX) \<and>
   pad_to_max [1, 2, 3, 4, 5, 6, 7] = Inl (ValueError ''Text longer than MAX_LEN'')"
proof -
  have e: "encode ''tax cuts boost economy''
             [(''boost'', 5), (''cuts'', 9), (''economy'', 12), (''tax'', 25)] = Inr [25, 9, 5, 12]"
    by (simp add: encode_def str_split_def isspace_def lookup_def bindE_def)
  have s: "length (str_split ''tax cuts boost economy'') = 4"
    by (simp add: str_split_def isspace_def)
  show ?thesis
    using pad_to_max_encode [of "''tax cuts boost economy''"
        "[(''boost'', 5), (''cuts'', 9), (''economy'', 12), (''tax'', 25)]" "[25, 9, 5, 12]"
        "[1, 2, 3, 4, 5, 6, 7]"] e s
    by (simp add: MAX_LEN_def)
qed

lemma mapE_lookup_present:
  "\<forall>w\<in>set ws. map_of vocab w \<noteq> None \<Longrightarrow>
     mapE (lookup vocab) ws = Inr (map (\<lambda>w. the (map_of vocab w)) ws)"
  by (induction ws) (auto simp: lookup_def bindE_def)

lemma mapE_lookup_absent:
  "\<exists>w\<in>set ws. map_of vocab w = None \<Longrightarrow>
     \<exists>w\<in>set ws. map_of vocab w = None \<and> mapE (lookup vocab) ws = Inl (KeyError w)"
proof (induction ws)
  case Nil
  then show ?case by simp
next
  case (Cons a ws)
  show ?case
  proof (cases "map_of vocab a")
    case None
    then show ?thesis by (simp add: lookup_def bindE_def)
  next
    case (Some i)
    with Cons.prems have "\<exists>w\<in>set ws. map_of vocab w = None" by auto
    from Cons.IH [OF this] obtain w where
      "w \<in> set ws" "map_of vocab w = None" "mapE (lookup vocab) ws = Inl (KeyError w)"
      by blast
    moreover from Some have "lookup vocab a = Inr i" by (simp add: lookup_def)
    ultimately show ?thesis by (auto simp: bindE_def)
  qed
qed

subsection \<open>The vocabulary\<close>

lemma foldl_add_word:
  "distinct xs \<Longrightarrow>
     foldl add_word acc xs =
       acc @ zip (filter (\<lambda>w. w \<notin> fst ` set acc) xs)
                 (map int [length acc ..< length acc + length (filter (\<lambda>w. w \<notin> fst ` set acc) xs)])"
proof (induction xs arbitrary: acc)
  case Nil
  show ?case by simp
next
  case (Cons x xs)
  show ?case
  proof (cases "x \<in> fst ` set acc")
    case True
    then have "add_word acc x = acc" by (simp add: add_word_def)
    with True Cons show ?thesis by simp
  next
    case False
    let ?acc = "acc @ [(x, int (length acc))]"
    from False have step: "add_word acc x = ?acc" by (simp add: add_word_def)
    from Cons.prems have nx: "x \<notin> set xs" and dxs: "distinct xs" by simp_all
    have flt: "filter (\<lambda>w. w \<notin> fst ` set ?acc) xs = filter (\<lambda>w. w \<notin> fst ` set acc) xs"
      using nx by (intro filter_cong) auto
    have "foldl add_word acc (x # xs) = foldl add_word ?acc xs"
      using step by simp
    moreover have "foldl add_word ?acc xs = ?acc @ zip (filter (\<lambda>w. w \<notin> fst ` set acc) xs)
        (map int [Suc (length acc) ..< Suc (length acc) + length (filter (\<lambda>w. w \<notin> fst ` set acc) xs)])"
      using Cons.IH [OF dxs, of ?acc] flt by (simp del: upt_Suc)
    moreover    have "[length acc ..< length acc + length (filter (\<lambda>w. w \<notin> fst ` set acc) (x # xs))] =
        length acc # [Suc (length acc) ..< Suc (length acc) + length (filter (\<lambda>w. w \<notin> fst ` set acc) xs)]"
      using False by (simp add: upt_conv_Cons del: upt_Suc)
    ultimately show ?thesis
      using False by (simp del: upt_Suc)
  qed
qed

lemma finite_sample_words: "finite (sample_words samples)"
  by (simp add: sample_words_def)

lemma build_vocab_eq:
  "build_vocab samples =
     (''<pad>'', PAD_IDX) # zip (other_words samples) (map int [1..<Suc (length (other_words samples))])"
  using foldl_add_word [of "sorted_list_of_set (sample_words samples)" "[(''<pad>'', PAD_IDX)]"]
  by (simp add: build_vocab_def other_words_def PAD_IDX_def del: upt_Suc)

lemma other_words_props:
  "set (other_words samples) = sample_words samples - {''<pad>''}"
  "sorted (other_words samples)" "distinct (other_words samples)"
  using finite_sample_words [of samples]
  by (auto simp: other_words_def sorted_wrt_filter)

lemma build_vocab_keys:
  "map fst (build_vocab samples) = ''<pad>'' # other_words samples"
  by (simp add: build_vocab_eq del: upt_Suc)

lemma build_vocab_distinct_keys: "distinct (map fst (build_vocab samples))"
  using other_words_props [of samples] by (simp add: build_vocab_keys)

lemma build_vocab_nth:
  assumes "i < length (other_words samples)"
  shows "map_of (build_vocab samples) (other_words samples ! i) = Some (int i + 1)"
proof -
  let ?ws = "other_words samples"
  have "(?ws ! i, int (Suc i)) \<in> set (zip ?ws (map int [1..<Suc (length ?ws)]))"
    using assms by (auto simp: in_set_zip nth_upt simp del: upt_Suc intro!: exI [of _ i])
  then have "(?ws ! i, int (Suc i)) \<in> set (build_vocab samples)"
    by (simp add: build_vocab_eq)
  with build_vocab_distinct_keys [of samples] show ?thesis
    by (simp add: algebra_simps)
qed

lemma build_vocab_pad: "map_of (build_vocab samples) ''<pad>'' = Some PAD_IDX"
  by (simp add: build_vocab_eq)

lemma train_vocab:
  "build_vocab train_samples =
    [(''<pad>'', 0), (''action'', 1), (''ai'', 2), (''automation'', 3),
  (''boom'', 4), (''boost'', 5), (''breakthrough'', 6), (''change'', 7),
  (''climate'', 8), (''cuts'', 9), (''downturn'', 10), (''economic'', 11),
  (''economy'', 12), (''energy'', 13), (''ethics'', 14), (''fears'', 15),
  (''green'', 16), (''innovation'', 17), (''job'', 18), (''jobs'', 19),
  (''loss'', 20), (''program'', 21), (''recession'', 22),
  (''regulation'', 23), (''renewable'', 24), (''tax'', 25), (''tech'', 26),
  (''urgent'', 27)]"
  by code_simp

lemma timeline_tokens:
  "map (\<lambda>event. bindE (encode event (build_vocab train_samples)) pad_to_max) timeline =
     [Inr [8, 7, 27, 1, 0, 0], Inr [16, 19, 21, 0, 0, 0], Inr [25, 9, 5, 12, 0, 0],
      Inr [3, 18, 20, 15, 0, 0], Inr [26, 17, 4, 0, 0, 0]]"
  by code_simp

lemma other_words_index:
  assumes "w \<in> sample_words samples" "w \<noteq> ''<pad>''"
  obtains i where "i < length (other_words samples)" "other_words samples ! i = w"
    "map_of (build_vocab samples) w = Some (int i + 1)"
proof -
  from assms have "w \<in> set (other_words samples)"
    by (simp add: other_words_props)
  then obtain i where "i < length (other_words samples)" "other_words samples ! i = w"
    by (auto simp: in_set_conv_nth)
  with build_vocab_nth [of i samples] that show thesis by auto
qed

lemma other_words_less:
  assumes "i < length (other_words samples)" "j < length (other_words samples)"
    "other_words samples ! i < other_words samples ! j"
  shows "i < j"
proof (rule ccontr)
  assume "\<not> i < j"
  then have "j \<le> i" by simp
  with assms(1) other_words_props(2) [of samples]
  have "other_words samples ! j \<le> other_words samples ! i"
    by (simp add: sorted_nth_mono)
  with assms(3) show False by simp
qed

text \<open>
  Claim C5, as the code has it. The vocabulary maps the placeholder \<^verbatim>\<open><pad>\<close> to id 0. The
  words of the training texts other than \<^verbatim>\<open><pad>\<close> get the ids 1, 2, ... in sorted
  order: each of them an id of at least 1, no two of them the same id, none of them the
  placeholder's, a smaller word a smaller id. An empty training set gives the vocabulary
  that holds the placeholder alone. (A training word \<^verbatim>\<open><pad>\<close> is skipped by the test of
  line 10 and keeps id 0: see the counterexample below.)
\<close>

theorem build_vocab_ids:
  "map_of (build_vocab samples) ''<pad>'' = Some PAD_IDX \<and>
   build_vocab samples =
     (''<pad>'', PAD_IDX) #
       zip (other_words samples) (map int [1..<Suc (length (other_words samples))]) \<and>
   set (other_words samples) = sample_words samples - {''<pad>''} \<and>
   sorted (other_words samples) \<and> distinct (other_words samples) \<and>
   (\<forall>w\<in>sample_words samples. w \<noteq> ''<pad>'' \<longrightarrow>
      (\<exists>i. 1 \<le> i \<and> map_of (build_vocab samples) w = Some i)) \<and>
   inj_on (map_of (build_vocab samples)) (insert ''<pad>'' (sample_words samples)) \<and>
   (\<forall>w\<in>sample_words samples. \<forall>w'\<in>sample_words samples.
      w \<noteq> ''<pad>'' \<and> w' \<noteq> ''<pad>'' \<and> w < w' \<longrightarrow>
      the (map_of (build_vocab samples) w) < the (map_of (build_vocab samples) w')) \<and>
   build_vocab [] = [(''<pad>'', PAD_IDX)]"
proof -
  let ?v = "build_vocab samples"
  have ge: "\<forall>w\<in>sample_words samples. w \<noteq> ''<pad>'' \<longrightarrow> (\<exists>i. 1 \<le> i \<and> map_of ?v w = Some i)"
  proof (intro ballI impI)
    fix w assume "w \<in> sample_words samples" "w \<noteq> ''<pad>''"
    then obtain i where "map_of ?v w = Some (int i + 1)"
      by (rule other_words_index)
    then show "\<exists>i. 1 \<le> i \<and> map_of ?v w = Some i" by simp
  qed
  have inj: "inj_on (map_of ?v) (insert ''<pad>'' (sample_words samples))"
  proof (rule inj_onI)
    fix x y
    assume x: "x \<in> insert ''<pad>'' (sample_words samples)"
      and y: "y \<in> insert ''<pad>'' (sample_words samples)"
      and eq: "map_of ?v x = map_of ?v y"
    show "x = y"
    proof (cases "x = ''<pad>''")
      case True
      show ?thesis
      proof (cases "y = ''<pad>''")
        case True
        with \<open>x = ''<pad>''\<close> show ?thesis by simp
      next
        case False
        with y obtain j where "map_of ?v y = Some (int j + 1)"
          by (auto elim: other_words_index)
        with eq True build_vocab_pad [of samples] show ?thesis
          by (simp add: PAD_IDX_def)
      qed
    next
      case False
      with x obtain i where i: "i < length (other_words samples)" "other_words samples ! i = x"
        "map_of ?v x = Some (int i + 1)"
        by (auto elim: other_words_index)
      show ?thesis
      proof (cases "y = ''<pad>''")
        case True
        with eq i build_vocab_pad [of samples] show ?thesis
          by (simp add: PAD_IDX_def)
      next
        case False
        with y obtain j where j: "j < length (other_words samples)" "other_words samples ! j = y"
          "map_of ?v y = Some (int j + 1)"
          by (auto elim: other_words_index)
        with eq i have "i = j" by simp
        with i j show ?thesis by simp
      qed
    qed
  qed
  have mono: "\<forall>w\<in>sample_words samples. \<forall>w'\<in>sample_words samples.
      w \<noteq> ''<pad>'' \<and> w' \<noteq> ''<pad>'' \<and> w < w' \<longrightarrow> the (map_of ?v w) < the (map_of ?v w')"
  proof (intro ballI impI)
    fix w w'
    assume w: "w \<in> sample_words samples" and w': "w' \<in> sample_words samples"
      and h: "w \<noteq> ''<pad>'' \<and> w' \<noteq> ''<pad>'' \<and> w < w'"
    from w h obtain i where i: "i < length (other_words samples)" "other_words samples ! i = w"
      "map_of ?v w = Some (int i + 1)"
      by (auto elim: other_words_index)
    from w' h obtain j where j: "j < length (other_words samples)" "other_words samples ! j = w'"
      "map_of ?v w' = Some (int j + 1)"
      by (auto elim: other_words_index)
    from h i j have "i < j"
      by (intro other_words_less [of i samples j]) simp_all
    with i j show "the (map_of ?v w) < the (map_of ?v w')" by simp
  qed
  have empty: "build_vocab [] = [(''<pad>'', PAD_IDX)]"
    by (simp add: build_vocab_def sample_words_def)
  from build_vocab_pad [of samples] build_vocab_eq [of samples] other_words_props [of samples]
    ge inj mono empty
  show ?thesis by blast
qed

theorem build_vocab_ids_witness:
  "map_of (build_vocab train_samples) ''<pad>'' = Some PAD_IDX \<and>
   (\<exists>i. 1 \<le> i \<and> map_of (build_vocab train_samples) ''tax'' = Some i) \<and>
   the (map_of (build_vocab train_samples) ''tax'') < the (map_of (build_vocab train_samples) ''tech'')"
proof -
  have tax: "''tax'' \<in> sample_words train_samples"
    by code_simp
  have tech: "''tech'' \<in> sample_words train_samples"
    by code_simp
  have ne: "''tax'' \<noteq> ''<pad>'' \<and> ''tech'' \<noteq> ''<pad>'' \<and> ''tax'' < ''tech''"
    by code_simp
  note all = build_vocab_ids [of train_samples]
  from all have pad: "map_of (build_vocab train_samples) ''<pad>'' = Some PAD_IDX"
    by (rule conjunct1)
  from all have ge: "\<forall>w\<in>sample_words train_samples. w \<noteq> ''<pad>'' \<longrightarrow>
      (\<exists>i. 1 \<le> i \<and> map_of (build_vocab train_samples) w = Some i)"
    by (elim conjE)
  from all have mono: "\<forall>w\<in>sample_words train_samples. \<forall>w'\<in>sample_words train_samples.
      w \<noteq> ''<pad>'' \<and> w' \<noteq> ''<pad>'' \<and> w < w' \<longrightarrow>
      the (map_of (build_vocab train_samples) w) < the (map_of (build_vocab train_samples) w')"
    by (elim conjE)
  from ge tax ne have g: "\<exists>i. 1 \<le> i \<and> map_of (build_vocab train_samples) ''tax'' = Some i"
    by (elim ballE [of _ _ "''tax''"] conjE) (erule (1) impE, assumption, simp)
  from mono [rule_format, OF tax tech ne] pad g show ?thesis
    by (intro conjI)
qed

text \<open>
  Claim C5 as the spec words it gives every word of the training texts an id of at least
  1. The word \<^verbatim>\<open><pad>\<close> of a training text has id 0.
\<close>

theorem build_vocab_pad_word_counterexample:
  "''<pad>'' \<in> sample_words [(''<pad> rally'', [], [])] \<and>
   map_of (build_vocab [(''<pad> rally'', [], [])]) ''<pad>'' = Some 0"
  by code_simp

subsection \<open>The timeline\<close>

text \<open>
  Claim C10. Each of the five events of the timeline is the text of one of the eight
  training samples, so each of its words is a key of the vocabulary built from them; each
  event has at most \<open>MAX_LEN\<close> words; and \<open>encode\<close> followed by \<open>pad_to_max\<close> returns
  \<open>MAX_LEN\<close> tokens for it, raising neither \<^verbatim>\<open>KeyError\<close> nor \<^verbatim>\<open>ValueError\<close>.
\<close>

theorem timeline_never_raises:
  "set timeline \<subseteq> fst ` set train_samples \<and>
   (\<forall>event\<in>set timeline.
      (\<forall>w\<in>set (str_split event). map_of (build_vocab train_samples) w \<noteq> None) \<and>
      length (str_split event) \<le> MAX_LEN \<and>
      (\<exists>tokens. bindE (encode event (build_vocab train_samples)) pad_to_max = Inr tokens \<and>
         length tokens = MAX_LEN))"
proof -
  have sub: "set timeline \<subseteq> fst ` set train_samples"
    by code_simp
  have words: "\<forall>event\<in>set timeline.
      (\<forall>w\<in>set (str_split event). map_of (build_vocab train_samples) w \<noteq> None) \<and>
      length (str_split event) \<le> MAX_LEN"
    by code_simp
  have toks: "\<forall>event\<in>set timeline.
      \<exists>tokens. bindE (encode event (build_vocab train_samples)) pad_to_max = Inr tokens \<and>
         length tokens = MAX_LEN"
  proof
    fix event assume "event \<in> set timeline"
    then have "bindE (encode event (build_vocab train_samples)) pad_to_max \<in>
        set (map (\<lambda>event. bindE (encode event (build_vocab train_samples)) pad_to_max) timeline)"
      by simp
    then show "\<exists>tokens. bindE (encode event (build_vocab train_samples)) pad_to_max = Inr tokens \<and>
         length tokens = MAX_LEN"
      unfolding timeline_tokens by (auto simp: MAX_LEN_def)
  qed
  from sub words toks show ?thesis by blast
qed

theorem timeline_never_raises_witness:
  "\<exists>tokens. bindE (encode ''tax cuts boost economy'' (build_vocab train_samples)) pad_to_max =
      Inr tokens \<and> length tokens = MAX_LEN"
  using timeline_never_raises by (simp add: timeline_def)

subsection \<open>The update of an opinion\<close>

lemma f32_Inr: "\<bar>fl x\<bar> < 2 ^ 128 \<Longrightarrow> f32 x = Inr (fl x)"
  by (simp add: f32_def)

lemma f32_Inr_iff: "f32 x = Inr y \<longleftrightarrow> \<bar>fl x\<bar> < 2 ^ 128 \<and> y = fl x"
  by (auto simp: f32_def)

lemma bindE_Inr_iff: "bindE r f = Inr b \<longleftrightarrow> (\<exists>a. r = Inr a \<and> f a = Inr b)"
  by (cases r) (simp_all add: bindE_def)

lemma bindE_Inr: "bindE (Inr a) f = f a"
  by (simp add: bindE_def)

lemma blend1_Inr:
  assumes "blend1 p u = Inr x"
  shows "x = fl (fl (fl 0.7 * p) + fl (fl 0.3 * u))"
  using assms by (auto simp: blend1_def bindE_Inr_iff f32_Inr_iff)

lemma blend1_ok:
  assumes "\<bar>fl (fl 0.7 * p)\<bar> < 2 ^ 128" "\<bar>fl (fl 0.3 * u)\<bar> < 2 ^ 128"
    "\<bar>fl (fl (fl 0.7 * p) + fl (fl 0.3 * u))\<bar> < 2 ^ 128"
  shows "blend1 p u = Inr (fl (fl (fl 0.7 * p) + fl (fl 0.3 * u)))"
  using assms by (simp add: blend1_def f32_Inr bindE_Inr)

lemma blend1_bounded:
  assumes "\<bar>p\<bar> \<le> 2 ^ 126" "\<bar>u\<bar> \<le> 2 ^ 126"
  shows "blend1 p u = Inr (fl (fl (fl 0.7 * p) + fl (fl 0.3 * u)))"
proof (rule blend1_ok)
  from assms have B: "2 * max \<bar>p\<bar> \<bar>u\<bar> + 1 < 2 ^ 128" by simp
  from blend_rounding(3) [of p u] B show "\<bar>fl (fl 0.7 * p)\<bar> < 2 ^ 128" by linarith
  from blend_rounding(4) [of u p] B show "\<bar>fl (fl 0.3 * u)\<bar> < 2 ^ 128" by linarith
  from blend_rounding(5) [of p u] B
  show "\<bar>fl (fl (fl 0.7 * p) + fl (fl 0.3 * u))\<bar> < 2 ^ 128" by linarith
qed

lemma blend1_unit:
  assumes "\<bar>p\<bar> \<le> 1" "\<bar>u\<bar> \<le> 1"
  shows "blend1 p u = Inr (fl (fl (fl 0.7 * p) + fl (fl 0.3 * u)))"
  using assms by (intro blend1_bounded) simp_all

lemma blend_same_length:
  "length opinion = length update \<Longrightarrow>
     blend opinion update = mapE (\<lambda>(p, u). blend1 p u) (zip opinion update)"
  by (simp add: blend_def broadcast_def bindE_def)

lemma mapE_map: "(\<And>x. x \<in> set xs \<Longrightarrow> f x = Inr (g x)) \<Longrightarrow> mapE f xs = Inr (map g xs)"
  by (induction xs) (simp_all add: bindE_def)

lemma weights_convex:
  "min p u \<le> fl 0.7 * p + fl 0.3 * u" "fl 0.7 * p + fl 0.3 * u \<le> max p u"
proof -
  have w: "fl 0.3 = 1 - fl 0.7" using fl_weights(1) by simp
  have w7: "0 \<le> fl 0.7" "fl 0.7 \<le> 1" by (simp_all add: fl_07)
  have e: "fl 0.7 * p + fl 0.3 * u = u + fl 0.7 * (p - u)" by (simp add: w algebra_simps)
  have "p \<le> u \<Longrightarrow> p - u \<le> fl 0.7 * (p - u)" "p \<le> u \<Longrightarrow> fl 0.7 * (p - u) \<le> 0"
      "u \<le> p \<Longrightarrow> fl 0.7 * (p - u) \<le> p - u" "u \<le> p \<Longrightarrow> 0 \<le> fl 0.7 * (p - u)"
    using w7 by (simp_all add: mult_le_cancel_right1 mult_le_cancel_right2 mult_nonneg_nonpos
        mult_left_le_one_le)
  then show "min p u \<le> fl 0.7 * p + fl 0.3 * u" "fl 0.7 * p + fl 0.3 * u \<le> max p u"
    unfolding e by (cases "p \<le> u"; simp add: min_def max_def; linarith)+
qed

text \<open>
  Claim C2, as the code has it. The update of line 94 is
  \<open>new = \<alpha> * old + (1 - \<alpha>) * predicted\<close> in \<^verbatim>\<open>float32\<close> arithmetic, component by
  component: \<open>\<alpha>\<close> is the \<^verbatim>\<open>float32\<close> nearest to 0.7, which is \<open>11744051 / 2 ^ 24\<close>, the other
  weight is the \<^verbatim>\<open>float32\<close> nearest to 0.3, which is \<open>1 - \<alpha>\<close> exactly, and the two products
  and their sum are rounded. The exact combination with these weights lies between the
  smaller and the larger of the two components, both included; the component computed
  lies within \<open>slack\<close> of that interval, a few units in the last place (and can leave
  the interval: see the counterexample below). Stated for components of magnitude up to
  \<open>2 ^ 126\<close>, where no operation overflows.
\<close>

theorem blend_rounded_convex:
  assumes "length opinion = length update"
    "\<forall>x\<in>set opinion \<union> set update. \<bar>x\<bar> \<le> 2 ^ 126"
  shows "fl 0.7 = 11744051 / 2 ^ 24 \<and> fl 0.3 = 1 - fl 0.7 \<and>
     (\<exists>new. blend opinion update = Inr new \<and> length new = length opinion \<and>
       (\<forall>i<length opinion.
          new ! i = fl (fl (fl 0.7 * opinion ! i) + fl ((1 - fl 0.7) * update ! i)) \<and>
          min (opinion ! i) (update ! i) \<le> fl 0.7 * opinion ! i + (1 - fl 0.7) * update ! i \<and>
          fl 0.7 * opinion ! i + (1 - fl 0.7) * update ! i \<le> max (opinion ! i) (update ! i) \<and>
          min (opinion ! i) (update ! i) - slack (opinion ! i) (update ! i) \<le> new ! i \<and>
          new ! i \<le> max (opinion ! i) (update ! i) + slack (opinion ! i) (update ! i)))"
proof -
  have w: "fl 0.3 = 1 - fl 0.7" using fl_weights(1) by simp
  let ?f = "\<lambda>(p, u). fl (fl (fl 0.7 * p) + fl (fl 0.3 * u))"
  let ?new = "map ?f (zip opinion update)"
  have "mapE (\<lambda>(p, u). blend1 p u) (zip opinion update) = Inr ?new"
  proof (rule mapE_map)
    fix x assume x: "x \<in> set (zip opinion update)"
    then have "fst x \<in> set opinion" "snd x \<in> set update"
      using set_zip_leftD [of "fst x" "snd x"] set_zip_rightD [of "fst x" "snd x"] by simp_all
    with assms(2) have "\<bar>fst x\<bar> \<le> 2 ^ 126" "\<bar>snd x\<bar> \<le> 2 ^ 126" by simp_all
    then show "(case x of (p, u) \<Rightarrow> blend1 p u) = Inr (?f x)"
      by (cases x) (simp add: blend1_bounded)
  qed
  then have b: "blend opinion update = Inr ?new"
    using assms(1) by (simp add: blend_same_length)
  have l: "length ?new = length opinion"
    using assms(1) by simp
  have "\<forall>i<length opinion.
          ?new ! i = fl (fl (fl 0.7 * opinion ! i) + fl ((1 - fl 0.7) * update ! i)) \<and>
          min (opinion ! i) (update ! i) \<le> fl 0.7 * opinion ! i + (1 - fl 0.7) * update ! i \<and>
          fl 0.7 * opinion ! i + (1 - fl 0.7) * update ! i \<le> max (opinion ! i) (update ! i) \<and>
          min (opinion ! i) (update ! i) - slack (opinion ! i) (update ! i) \<le> ?new ! i \<and>
          ?new ! i \<le> max (opinion ! i) (update ! i) + slack (opinion ! i) (update ! i)"
  proof (intro allI impI)
    fix i assume i: "i < length opinion"
    with assms(1) have n: "?new ! i = fl (fl (fl 0.7 * opinion ! i) + fl (fl 0.3 * update ! i))"
      by simp
    from weights_convex [of "opinion ! i" "update ! i"]
      blend_rounding(1,2) [of "opinion ! i" "update ! i"]
    show "?new ! i = fl (fl (fl 0.7 * opinion ! i) + fl ((1 - fl 0.7) * update ! i)) \<and>
          min (opinion ! i) (update ! i) \<le> fl 0.7 * opinion ! i + (1 - fl 0.7) * update ! i \<and>
          fl 0.7 * opinion ! i + (1 - fl 0.7) * update ! i \<le> max (opinion ! i) (update ! i) \<and>
          min (opinion ! i) (update ! i) - slack (opinion ! i) (update ! i) \<le> ?new ! i \<and>
          ?new ! i \<le> max (opinion ! i) (update ! i) + slack (opinion ! i) (update ! i)"
      unfolding n slack_def w [symmetric] by simp
  qed
  with b l w fl_07 show ?thesis by blast
qed

theorem blend_rounded_convex_witness:
  "\<exists>new. blend [1/4, -1/8] [1/2, 1] = Inr new \<and> length new = 2 \<and>
     new ! 0 = fl (fl (fl 0.7 * (1/4)) + fl ((1 - fl 0.7) * (1/2))) \<and>
     1/4 - slack (1/4) (1/2) \<le> new ! 0 \<and> new ! 0 \<le> 1/2 + slack (1/4) (1/2)"
proof -
  have h: "length [1/4, -1/8 :: real] = length [1/2, 1 :: real]"
    "\<forall>x\<in>set [1/4, -1/8 :: real] \<union> set [1/2, 1]. \<bar>x\<bar> \<le> 2 ^ 126"
    by simp_all
  from blend_rounded_convex [OF h] obtain new where
    a: "blend [1/4, -1/8] [1/2, 1] = Inr new" and
    b: "length new = length [1/4, -1/8 :: real]" and
    c: "\<forall>i<length [1/4, -1/8 :: real].
          new ! i = fl (fl (fl 0.7 * [1/4, -1/8] ! i) + fl ((1 - fl 0.7) * [1/2, 1] ! i)) \<and>
          min ([1/4, -1/8] ! i) ([1/2, 1] ! i) \<le>
            fl 0.7 * [1/4, -1/8] ! i + (1 - fl 0.7) * [1/2, 1] ! i \<and>
          fl 0.7 * [1/4, -1/8] ! i + (1 - fl 0.7) * [1/2, 1] ! i \<le>
            max ([1/4, -1/8] ! i) ([1/2, 1] ! i) \<and>
          min ([1/4, -1/8] ! i) ([1/2, 1] ! i) - slack ([1/4, -1/8] ! i) ([1/2, 1] ! i) \<le> new ! i \<and>
          new ! i \<le> max ([1/4, -1/8] ! i) ([1/2, 1] ! i) + slack ([1/4, -1/8] ! i) ([1/2, 1] ! i)"
    by (elim conjE exE)
  from c [rule_format, of 0] have
    "new ! 0 = fl (fl (fl 0.7 * (1/4)) + fl ((1 - fl 0.7) * (1/2))) \<and>
     1/4 - slack (1/4) (1/2) \<le> new ! 0 \<and> new ! 0 \<le> 1/2 + slack (1/4) (1/2)"
    by simp
  with a b show ?thesis
    by (intro exI [of _ new]) simp
qed

text \<open>
  Claim C2 as the spec words it puts every component of the new opinion between the two
  components it blends. With the \<^verbatim>\<open>float32\<close> number \<open>12246611 / 2 ^ 25\<close> as both the old
  opinion and the prediction, line 94 returns \<open>3061653 / 2 ^ 23\<close>, the next \<^verbatim>\<open>float32\<close>
  above: the two products round up, and their sum lies half way between two \<^verbatim>\<open>float32\<close>
  numbers and rounds to the even one, the upper.
\<close>

theorem blend_exceeds_max_counterexample:
  "blend [12246611 / 2 ^ 25] [12246611 / 2 ^ 25] = Inr [3061653 / 2 ^ 23] \<and>
   max (12246611 / 2 ^ 25) (12246611 / 2 ^ 25) < (3061653 / 2 ^ 23 :: real)"
proof -
  note v = blend_one_ulp_above
  have a: "f32 (fl 0.7 * (12246611 / 2 ^ 25)) = Inr (2143157 / 2 ^ 23)"
    unfolding f32_def v(1) by simp
  have b: "f32 (fl 0.3 * (12246611 / 2 ^ 25)) = Inr (7347967 / 2 ^ 26)"
    unfolding f32_def v(2) by simp
  have c: "f32 (2143157 / 2 ^ 23 + 7347967 / 2 ^ 26) = Inr (3061653 / 2 ^ 23)"
    unfolding f32_def v(3) by simp
  have "blend1 (12246611 / 2 ^ 25) (12246611 / 2 ^ 25) = Inr (3061653 / 2 ^ 23)"
    unfolding blend1_def a bindE_Inr b c by (rule refl)
  then have "blend [12246611 / 2 ^ 25] [12246611 / 2 ^ 25] = Inr [3061653 / 2 ^ 23]"
    unfolding blend_def broadcast_def by (simp add: bindE_Inr)
  then show ?thesis by simp
qed

subsection \<open>Results and lists of results\<close>

lemma mapE_Inr_length: "mapE f xs = Inr ys \<Longrightarrow> length ys = length xs"
proof -
  assume "mapE f xs = Inr ys"
  then have "map f xs = map Inr ys" by (simp add: mapE_Inr_iff)
  then have "length (map f xs) = length (map Inr ys)" by simp
  then show ?thesis by simp
qed

lemma mapE_Inr_set:
  assumes "mapE f xs = Inr ys" "y \<in> set ys"
  shows "\<exists>x\<in>set xs. f x = Inr y"
proof -
  from assms(1) have "map f xs = map Inr ys" by (simp add: mapE_Inr_iff)
  moreover from assms(2) have "Inr y \<in> set (map Inr ys)" by simp
  ultimately have "Inr y \<in> set (map f xs)" by simp
  then show ?thesis by auto
qed

subsection \<open>The network: range of the output\<close>

lemma torch_tanh_range: "-1 \<le> torch_tanh z \<and> torch_tanh z \<le> 1"
proof -
  have "\<bar>tanh z\<bar> \<le> 1"
    using tanh_real_lt_1 [of z] tanh_real_gt_neg1 [of z] by (simp add: abs_le_iff)
  then have "\<bar>fl (tanh z)\<bar> \<le> 1" by (rule fl_abs_le_one)
  then show ?thesis by (simp add: torch_tanh_def abs_le_iff)
qed

lemma forward_Inr:
  assumes "forward m g tokens opinion = Inr (out, g')"
  obtains x h pooled proj cx y where
    "mapE (mapE (embedding (emb m))) tokens = Inr x"
    "encoder m (training m) g x (map (map (\<lambda>t. t = PAD_IDX)) tokens) = Inr (h, g')"
    "pool (embedding_dim (emb m)) h (map (map (\<lambda>t. t = PAD_IDX)) tokens) = Inr pooled"
    "mapE (linear (op_proj m)) opinion = Inr proj"
    "mat_add pooled proj = Inr cx"
    "mapE (linear (head m)) cx = Inr y"
    "out = map (map torch_tanh) y"
proof -
  from assms have "\<exists>x h pooled proj cx y.
    mapE (mapE (embedding (emb m))) tokens = Inr x \<and>
    encoder m (training m) g x (map (map (\<lambda>t. t = PAD_IDX)) tokens) = Inr (h, g') \<and>
    pool (embedding_dim (emb m)) h (map (map (\<lambda>t. t = PAD_IDX)) tokens) = Inr pooled \<and>
    mapE (linear (op_proj m)) opinion = Inr proj \<and>
    mat_add pooled proj = Inr cx \<and>
    mapE (linear (head m)) cx = Inr y \<and>
    out = map (map torch_tanh) y"
    by (auto simp: forward_def Let_def bindE_Inr_iff split_beta)
  then show thesis using that by blast
qed

lemma forward_range:
  assumes "forward m g tokens opinion = Inr (out, g')" "row \<in> set out" "y \<in> set row"
  shows "-1 \<le> y \<and> y \<le> 1"
proof -
  from assms(1) obtain z where "out = map (map torch_tanh) z"
    by (rule forward_Inr)
  with assms(2,3) obtain x where "y = torch_tanh x" by auto
  then show ?thesis
    by (simp add: torch_tanh_range)
qed

subsection \<open>The network: every step succeeds on a valid input\<close>

lemma embedding_ok:
  assumes "Embedding_shape n d e" "0 \<le> t \<and> t < int (num_embeddings e)"
  shows "embedding e t = Inr (emb_weight e ! nat t)" "length (emb_weight e ! nat t) = d"
proof -
  from assms(2) show "embedding e t = Inr (emb_weight e ! nat t)"
    by (simp add: embedding_def)
  from assms have "nat t < length (emb_weight e)"
    by (simp add: Embedding_shape_def nat_less_iff)
  moreover from assms(1) have "\<forall>r\<in>set (emb_weight e). length r = d"
    by (simp add: Embedding_shape_def list_all_iff)
  ultimately show "length (emb_weight e ! nat t) = d"
    by simp
qed

lemma embed_tokens:
  assumes "Embedding_shape n d e"
    "\<forall>row\<in>set tokens. \<forall>t\<in>set row. 0 \<le> t \<and> t < int (num_embeddings e)"
  shows "mapE (mapE (embedding e)) tokens = Inr (map (map (\<lambda>t. emb_weight e ! nat t)) tokens)"
    "map (map length) (map (map (\<lambda>t. emb_weight e ! nat t)) tokens) = map (map (\<lambda>_. d)) tokens"
proof -
  have row: "mapE (embedding e) row = Inr (map (\<lambda>t. emb_weight e ! nat t) row)"
    if "row \<in> set tokens" for row
  proof (rule mapE_map)
    fix t assume "t \<in> set row"
    with that assms(2) have "0 \<le> t \<and> t < int (num_embeddings e)" by blast
    with assms(1) show "embedding e t = Inr (emb_weight e ! nat t)"
      by (rule embedding_ok(1))
  qed
  show "mapE (mapE (embedding e)) tokens = Inr (map (map (\<lambda>t. emb_weight e ! nat t)) tokens)"
    by (rule mapE_map) (rule row)
  show "map (map length) (map (map (\<lambda>t. emb_weight e ! nat t)) tokens) = map (map (\<lambda>_. d)) tokens"
  proof -
    have "length (emb_weight e ! nat t) = d" if "row \<in> set tokens" "t \<in> set row" for row t
    proof -
      from that assms(2) have "0 \<le> t \<and> t < int (num_embeddings e)" by blast
      with assms(1) show ?thesis by (rule embedding_ok(2))
    qed
    then show ?thesis by simp
  qed
qed

lemma masked_fill_ok:
  "map length h = map length pmask \<Longrightarrow> masked_fill h pmask 0 = Inr (filled h pmask)"
  by (simp add: masked_fill_def filled_def)

lemma lengths_of_pos: "n \<in> set (lengths_of pmask) \<Longrightarrow> 1 \<le> n"
  by (auto simp: lengths_of_def)

lemma true_divide_ok: "n \<noteq> 0 \<Longrightarrow> true_divide s n = Inr (map (\<lambda>x. x / of_int n) s)"
  by (simp add: true_divide_def)

lemma pool_ok:
  assumes "map length h = map length pmask"
  shows "pool d h pmask =
     Inr (map2 (\<lambda>s n. map (\<lambda>x. x / of_int n) s) (map (sum_dim1 d) (filled h pmask)) (lengths_of pmask))"
proof -
  from assms have len: "length h = length pmask"
    by (rule map_eq_imp_length_eq)
  then have l2: "length (map (sum_dim1 d) (filled h pmask)) = length (lengths_of pmask)"
    by (simp add: filled_def lengths_of_def)
  have "mapE (\<lambda>(s, n). true_divide s n) (zip (map (sum_dim1 d) (filled h pmask)) (lengths_of pmask)) =
     Inr (map (\<lambda>(s, n). map (\<lambda>x. x / of_int n) s)
        (zip (map (sum_dim1 d) (filled h pmask)) (lengths_of pmask)))"
  proof (rule mapE_map)
    fix x assume "x \<in> set (zip (map (sum_dim1 d) (filled h pmask)) (lengths_of pmask))"
    then have "snd x \<in> set (lengths_of pmask)"
      using set_zip_rightD [of "fst x" "snd x"] by simp
    then have "snd x \<noteq> 0" using lengths_of_pos [of "snd x" pmask] by auto
    then show "(case x of (s, n) \<Rightarrow> true_divide s n) = Inr (case x of (s, n) \<Rightarrow> map (\<lambda>x. x / of_int n) s)"
      by (cases x) (simp add: true_divide_ok)
  qed
  with l2 masked_fill_ok [OF assms] show ?thesis
    by (simp add: pool_def bindE_Inr broadcast_def)
qed


lemma sum_dim1_length:
  "\<forall>p\<in>set hr. length p = d \<Longrightarrow> length (sum_dim1 d hr) = d"
  by (induction hr) (simp_all add: sum_dim1_def)

lemma filled_shape:
  "map length h = map length pmask \<Longrightarrow> map (map length) (filled h pmask) = map (map length) h"
proof (induction h arbitrary: pmask)
  case Nil
  then show ?case by (simp add: filled_def)
next
  case (Cons hr h)
  then obtain mr pm where pm: "pmask = mr # pm" "length hr = length mr" "map length h = map length pm"
    by (cases pmask) auto
  have "map length (map2 (\<lambda>p b. if b then map (\<lambda>_. 0) p else p) hr mr) = map length hr"
    using pm(2) by (induction hr mr rule: list_induct2) simp_all
  with Cons.IH [OF pm(3)] pm show ?case
    by (simp add: filled_def)
qed

lemma pool_shape:
  assumes "map (map length) h = map (map (\<lambda>_. d)) tokens"
    "pmask = map (map P) tokens"
  shows "\<exists>pooled. pool d h pmask = Inr pooled \<and> length pooled = length tokens \<and>
     (\<forall>r\<in>set pooled. length r = d)"
proof -
  from assms(1) have "map length (map (map length) h) = map length (map (map (\<lambda>_. d)) tokens)"
    by simp
  then have ml: "map length h = map length pmask"
    using assms(2) by (simp add: comp_def)
  then have len: "length h = length tokens"
    using assms(2) map_eq_imp_length_eq by fastforce
  let ?sums = "map (sum_dim1 d) (filled h pmask)"
  let ?pooled = "map2 (\<lambda>s n. map (\<lambda>x. x / of_int n) s) ?sums (lengths_of pmask)"
  have shape: "map (map length) (filled h pmask) = map (map (\<lambda>_. d)) tokens"
    using filled_shape [OF ml] assms(1) by simp
  have vecs: "\<forall>p\<in>set hr. length p = d" if "hr \<in> set (filled h pmask)" for hr
  proof -
    from that have "map length hr \<in> set (map (map length) (filled h pmask))" by simp
    with shape have "map length hr \<in> set (map (map (\<lambda>_. d)) tokens)" by simp
    then have "\<exists>row\<in>set tokens. map length hr = map (\<lambda>_. d) row" by auto
    then have "\<exists>row\<in>set tokens. set (map length hr) = set (map (\<lambda>_. d) row)" by metis
    then have "set (map length hr) \<subseteq> {d}" by auto
    then show ?thesis by auto
  qed
  have sums: "\<forall>s\<in>set ?sums. length s = d"
    using vecs sum_dim1_length by auto
  have "length ?sums = length tokens"
    using len assms(2) by (simp add: filled_def)
  moreover have "length (lengths_of pmask) = length tokens"
    using assms(2) by (simp add: lengths_of_def)
  ultimately have l: "length ?pooled = length tokens" by simp
  have "\<forall>r\<in>set ?pooled. length r = d"
    using sums by (auto dest!: set_zip_leftD)
  with pool_ok [OF ml, of d] l show ?thesis by blast
qed

lemma linear_ok:
  assumes "Linear_shape i k l" "length x = i"
  shows "linear l x = Inr (map2 (\<lambda>w b. dot w x + b) (weight l) (bias l))"
    "length (map2 (\<lambda>w b. dot w x + b) (weight l) (bias l)) = k"
  using assms by (simp_all add: linear_def Linear_shape_def)

lemma linear_rows:
  assumes "Linear_shape i k l" "\<forall>x\<in>set xs. length x = i"
  shows "\<exists>ys. mapE (linear l) xs = Inr ys \<and> length ys = length xs \<and> (\<forall>y\<in>set ys. length y = k)"
proof -
  let ?f = "\<lambda>x. map2 (\<lambda>w b. dot w x + b) (weight l) (bias l)"
  have "mapE (linear l) xs = Inr (map ?f xs)"
    using assms by (intro mapE_map linear_ok(1) [of i k]) auto
  moreover have "\<forall>y\<in>set (map ?f xs). length y = k"
    using assms linear_ok(2) [of i k l] by auto
  ultimately show ?thesis by auto
qed

lemma vec_add_same: "length a = length b \<Longrightarrow> vec_add a b = Inr (map2 (+) a b)"
  by (simp add: vec_add_def broadcast_def bindE_Inr)

lemma mat_add_rows:
  assumes "length a = length b" "\<forall>r\<in>set a. length r = d" "\<forall>r\<in>set b. length r = d"
  shows "\<exists>c. mat_add a b = Inr c \<and> length c = length a \<and> (\<forall>r\<in>set c. length r = d)"
proof -
  have "mapE (\<lambda>(x, y). vec_add x y) (zip a b) = Inr (map (\<lambda>(x, y). map2 (+) x y) (zip a b))"
  proof (rule mapE_map)
    fix p assume "p \<in> set (zip a b)"
    then have "fst p \<in> set a" "snd p \<in> set b"
      using set_zip_leftD [of "fst p" "snd p"] set_zip_rightD [of "fst p" "snd p"] by simp_all
    with assms have "length (fst p) = length (snd p)" by simp
    then show "(case p of (x, y) \<Rightarrow> vec_add x y) = Inr (case p of (x, y) \<Rightarrow> map2 (+) x y)"
      by (cases p) (simp add: vec_add_same)
  qed
  moreover have "\<forall>r\<in>set (map (\<lambda>(x, y). map2 (+) x y) (zip a b)). length r = d"
  proof
    fix r assume "r \<in> set (map (\<lambda>(x, y). map2 (+) x y) (zip a b))"
    then obtain x y where "(x, y) \<in> set (zip a b)" "r = map2 (+) x y" by auto
    moreover from this have "x \<in> set a" "y \<in> set b"
      by (auto dest: set_zip_leftD set_zip_rightD)
    ultimately show "length r = d" using assms by simp
  qed
  ultimately show ?thesis
    using assms(1) by (simp add: mat_add_def broadcast_def bindE_Inr)
qed

lemma forward_total:
  assumes "constructed n k d m" "valid_input m tokens opinion" "has_tokens tokens"
  shows "\<exists>out g'. forward m g tokens opinion = Inr (out, g') \<and> length out = length tokens \<and>
     (\<forall>row\<in>set out. length row = k)"
proof -
  let ?pmask = "map (map (\<lambda>t. t = PAD_IDX)) tokens"
  let ?x = "map (map (\<lambda>t. emb_weight (emb m) ! nat t)) tokens"
  from assms have E: "Embedding_shape n d (emb m)" and K: "keeps_shape (encoder m)"
    and P: "Linear_shape k d (op_proj m)" and H: "Linear_shape d k (head m)"
    by (simp_all add: constructed_def)
  from assms(2) have toks: "\<forall>row\<in>set tokens. \<forall>t\<in>set row. 0 \<le> t \<and> t < int (num_embeddings (emb m))"
    and ops: "\<forall>p\<in>set opinion. length p = in_features (op_proj m)"
    and same: "length opinion = length tokens"
    by (simp_all add: valid_input_def)
  note emb = embed_tokens [OF E toks]
  from assms(3) have "?pmask \<noteq> []" and "\<forall>mr\<in>set ?pmask. False \<in> set mr"
    by (auto simp: has_tokens_def)
  moreover have "map length ?x = map length ?pmask"
    by (simp add: comp_def)
  ultimately have "\<exists>h g'. encoder m (training m) g ?x ?pmask = Inr (h, g')"
    using K unfolding keeps_shape_def by blast
  then obtain h g' where enc: "encoder m (training m) g ?x ?pmask = Inr (h, g')"
    by blast
  with K have "map (map length) h = map (map length) ?x"
    unfolding keeps_shape_def by blast
  with emb(2) have hs: "map (map length) h = map (map (\<lambda>_. d)) tokens" by simp
  from E have dim: "embedding_dim (emb m) = d" by (simp add: Embedding_shape_def)
  from pool_shape [OF hs refl] obtain pooled where
    pooled: "pool d h ?pmask = Inr pooled" "length pooled = length tokens" "\<forall>r\<in>set pooled. length r = d"
    by blast
  from P ops have "\<forall>p\<in>set opinion. length p = k" by (simp add: Linear_shape_def)
  from linear_rows [OF P this] obtain proj where
    proj: "mapE (linear (op_proj m)) opinion = Inr proj" "length proj = length opinion"
      "\<forall>y\<in>set proj. length y = d"
    by blast
  from pooled(2) proj(2) same have "length pooled = length proj" by simp
  from mat_add_rows [OF this pooled(3) proj(3)] obtain cx where
    ctx: "mat_add pooled proj = Inr cx" "length cx = length pooled"
      "\<forall>r\<in>set cx. length r = d"
    by blast
  from linear_rows [OF H ctx(3)] obtain y where
    y: "mapE (linear (head m)) cx = Inr y" "length y = length cx" "\<forall>r\<in>set y. length r = k"
    by blast
  have "forward m g tokens opinion = Inr (map (map torch_tanh) y, g')"
    using emb(1) enc pooled(1) proj(1) ctx(1) y(1) dim
    by (simp add: forward_def Let_def bindE_Inr)
  moreover have "length (map (map torch_tanh) y) = length tokens"
    using y(2) ctx(2) pooled(2) by simp
  moreover have "\<forall>row\<in>set (map (map torch_tanh) y). length row = k"
    using y(3) by simp
  ultimately show ?thesis by blast
qed

subsection \<open>The network: the claims\<close>

lemma zero_encoder_keeps_shape: "keeps_shape zero_encoder"
  by (auto simp: keeps_shape_def zero_encoder_def list_all_iff comp_def split: if_splits)

lemma tiny_model_constructed: "constructed 2 1 1 tiny_model"
  by (simp add: constructed_def tiny_model_def Embedding_shape_def Linear_shape_def
      zero_encoder_keeps_shape)

text \<open>
  Claim C1, as the code has it. Whenever \<open>forward\<close> returns, every component of every row
  of its output lies in the closed interval from -1 to 1: the last step is \<^verbatim>\<open>torch.tanh\<close>
  on \<^verbatim>\<open>float32\<close>, the hyperbolic tangent rounded to \<^verbatim>\<open>float32\<close>. The end points are
  reached (see the counterexample below), so the interval is not the open one. And
  \<open>forward\<close> does return on every valid input, of a model with the shapes of \<^verbatim>\<open>__init__\<close>,
  whose batch has a token that is not padding in every row; on a batch of padding alone
  the library's encoder may raise.
\<close>

theorem forward_in_closed_interval:
  "(\<forall>out g'. forward m g tokens opinion = Inr (out, g') \<longrightarrow>
      (\<forall>row\<in>set out. \<forall>y\<in>set row. -1 \<le> y \<and> y \<le> 1)) \<and>
   (constructed n k d m \<and> valid_input m tokens opinion \<and> has_tokens tokens \<longrightarrow>
      (\<exists>out g'. forward m g tokens opinion = Inr (out, g')))"
proof (rule conjI)
  show "\<forall>out g'. forward m g tokens opinion = Inr (out, g') \<longrightarrow>
      (\<forall>row\<in>set out. \<forall>y\<in>set row. -1 \<le> y \<and> y \<le> 1)"
  proof (intro allI impI ballI)
    fix out g' row y
    assume "forward m g tokens opinion = Inr (out, g')" "row \<in> set out" "y \<in> set row"
    then show "-1 \<le> y \<and> y \<le> 1" by (rule forward_range)
  qed
  show "constructed n k d m \<and> valid_input m tokens opinion \<and> has_tokens tokens \<longrightarrow>
      (\<exists>out g'. forward m g tokens opinion = Inr (out, g'))"
    using forward_total [of n k d m tokens opinion g] by blast
qed

theorem forward_in_closed_interval_witness:
  "\<exists>out g'. forward tiny_model 0 [[1, 0]] [[0.5]] = Inr (out, g') \<and>
     (\<forall>row\<in>set out. \<forall>y\<in>set row. -1 \<le> y \<and> y \<le> 1)"
proof -
  have v: "valid_input tiny_model [[1, 0]] [[0.5]]"
    by (simp add: valid_input_def tiny_model_def)
  have t: "has_tokens [[1, 0]]"
    by (simp add: has_tokens_def PAD_IDX_def)
  from forward_in_closed_interval [of tiny_model 0 "[[1, 0]]" "[[0.5]]" 2 1 1]
    tiny_model_constructed v t
  show ?thesis by blast
qed

text \<open>
  Claim C1 as the spec words it puts every component strictly inside the interval. A
  model whose head has the bias 20 computes the pre-activation 20 for the opinion 0, and
  \<^verbatim>\<open>torch.tanh\<close> of 20 is the \<^verbatim>\<open>float32\<close> number 1: the hyperbolic tangent of 20 is
  closer to 1 than to the \<^verbatim>\<open>float32\<close> below it.
\<close>

theorem forward_saturates_counterexample:
  "forward saturated_model 0 [[1]] [[0]] = Inr ([[1]], 0)"
proof -
  have "fl (tanh 20) = 1"
    by (rule fl_tanh_saturates) simp
  then show ?thesis
    by (simp add: forward_def saturated_model_def tiny_model_def zero_encoder_def embedding_def
      pool_def masked_fill_def broadcast_def lengths_of_def count_nonpad_def sum_dim1_def
      true_divide_def linear_def dot_def mat_add_def vec_add_def bindE_def PAD_IDX_def
      torch_tanh_def)
qed

lemma sum_dim1_zeros:
  "\<forall>p\<in>set hr. p = replicate d 0 \<Longrightarrow> sum_dim1 d hr = replicate d 0"
  by (induction hr) (simp_all add: sum_dim1_def)

lemma count_nonpad_all_padding:
  "\<forall>t\<in>set row. t = PAD_IDX \<Longrightarrow> count_nonpad (map (\<lambda>t. t = PAD_IDX) row) = 0"
  by (induction row) (simp_all add: count_nonpad_def)

lemma filled_row_all_padding:
  assumes "length hr = length row" "\<forall>t\<in>set row. t = PAD_IDX"
  shows "map2 (\<lambda>p b. if b then map (\<lambda>_. 0) p else p) hr (map (\<lambda>t. t = PAD_IDX) row) =
     map (\<lambda>p. replicate (length p) (0::real)) hr"
  using assms by (induction hr row rule: list_induct2) (simp_all add: map_replicate_const)

lemma pool_errors: "pool d h pmask = Inl e \<Longrightarrow> e = ShapeError"
proof (cases "map length h = map length pmask")
  case True
  assume "pool d h pmask = Inl e"
  with pool_ok [OF True, of d] show ?thesis by simp
next
  case False
  assume "pool d h pmask = Inl e"
  with False show ?thesis
    by (simp add: pool_def masked_fill_def bindE_def)
qed

text \<open>
  Claim C6. Let row \<open>i\<close> of the token batch hold nothing but \<open>PAD_IDX\<close>, and let \<open>h\<close> be any
  encoder output with a vector of size \<open>d\<close> at each position. The count of positions of
  the row that are not padding is 0, the clamped count the pooling divides by is 1, and the
  pooling returns a value whose row \<open>i\<close> is the zero vector: whatever the encoder left at
  the padding positions is overwritten before the sum. On no input at all does the pooling
  divide by zero (\<open>NonFinite\<close>).
\<close>

theorem pool_all_padding:
  assumes "i < length tokens" "\<forall>t\<in>set (tokens ! i). t = PAD_IDX"
    "map length h = map length tokens" "\<forall>p\<in>set (h ! i). length p = d"
  shows "count_nonpad (map (\<lambda>t. t = PAD_IDX) (tokens ! i)) = 0 \<and>
     lengths_of (map (map (\<lambda>t. t = PAD_IDX)) tokens) ! i = 1 \<and>
     (\<exists>pooled. pool d h (map (map (\<lambda>t. t = PAD_IDX)) tokens) = Inr pooled \<and>
        length pooled = length tokens \<and> pooled ! i = replicate d 0) \<and>
     pool d' h' pmask' \<noteq> Inl NonFinite"
proof -
  let ?pmask = "map (map (\<lambda>t. t = PAD_IDX)) tokens"
  let ?sums = "map (sum_dim1 d) (filled h ?pmask)"
  let ?pooled = "map2 (\<lambda>s n. map (\<lambda>x. x / of_int n) s) ?sums (lengths_of ?pmask)"
  have cnt: "count_nonpad (map (\<lambda>t. t = PAD_IDX) (tokens ! i)) = 0"
    using assms(2) by (rule count_nonpad_all_padding)
  with assms(1) have one: "lengths_of ?pmask ! i = 1"
    by (simp add: lengths_of_def)
  from assms(3) have ml: "map length h = map length ?pmask"
    by (simp add: comp_def)
  from assms(3) have len: "length h = length tokens"
    by (rule map_eq_imp_length_eq)
  from assms(3) have "map length h ! i = map length tokens ! i" by simp
  with assms(1) len have li: "length (h ! i) = length (tokens ! i)" by simp
  have "filled h ?pmask ! i = map (\<lambda>p. replicate (length p) 0) (h ! i)"
    using assms(1) len filled_row_all_padding [OF li assms(2)]
    by (simp add: filled_def)
  with assms(4) have "\<forall>p\<in>set (filled h ?pmask ! i). p = replicate d 0"
    by auto
  then have "sum_dim1 d (filled h ?pmask ! i) = replicate d 0"
    by (rule sum_dim1_zeros)
  moreover have "length (filled h ?pmask) = length tokens"
    using len by (simp add: filled_def)
  ultimately have sums: "?sums ! i = replicate d 0"
    using assms(1) by simp
  have ls: "length ?sums = length tokens" "length (lengths_of ?pmask) = length tokens"
    using len by (simp_all add: filled_def lengths_of_def)
  with assms(1) have "?pooled ! i = map (\<lambda>x. x / of_int (lengths_of ?pmask ! i)) (?sums ! i)"
    by simp
  with sums one have pi: "?pooled ! i = replicate d 0" by simp
  from ls have "length ?pooled = length tokens" by simp
  with pool_ok [OF ml, of d] pi
  have "\<exists>pooled. pool d h ?pmask = Inr pooled \<and> length pooled = length tokens \<and>
      pooled ! i = replicate d 0"
    by blast
  moreover have "pool d' h' pmask' \<noteq> Inl NonFinite"
    using pool_errors [of d' h' pmask' NonFinite] by auto
  ultimately show ?thesis using cnt one by blast
qed

theorem pool_all_padding_witness:
  "count_nonpad (map (\<lambda>t. t = PAD_IDX) [0, 0]) = 0 \<and>
   lengths_of (map (map (\<lambda>t. t = PAD_IDX)) [[5, 0], [0, 0]]) ! 1 = 1 \<and>
   (\<exists>pooled. pool 1 [[[2], [3]], [[4], [7]]] (map (map (\<lambda>t. t = PAD_IDX)) [[5, 0], [0, 0]]) = Inr pooled \<and>
      length pooled = 2 \<and> pooled ! 1 = replicate 1 0)"
proof -
  have "(1::nat) < length [[5, 0], [0, 0::int]]"
    "\<forall>t\<in>set ([[5, 0], [0, 0::int]] ! 1). t = PAD_IDX"
    "map length [[[2], [3]], [[4], [7::real]]] = map length [[5, 0], [0, 0::int]]"
    "\<forall>p\<in>set ([[[2], [3]], [[4], [7::real]]] ! 1). length p = 1"
    by (simp_all add: PAD_IDX_def)
  from pool_all_padding [OF this, of 0 "[]" "[]"] show ?thesis
    by (simp add: numeral_2_eq_2)
qed

subsection \<open>The simulation loop\<close>

lemma pool_length: "pool d h pmask = Inr pooled \<Longrightarrow> length pooled = length pmask"
proof (cases "map length h = map length pmask")
  case True
  assume "pool d h pmask = Inr pooled"
  with pool_ok [OF True, of d] have
    "pooled = map2 (\<lambda>s n. map (\<lambda>x. x / of_int n) s) (map (sum_dim1 d) (filled h pmask)) (lengths_of pmask)"
    by simp
  moreover from True have "length h = length pmask" by (rule map_eq_imp_length_eq)
  ultimately show ?thesis by (simp add: filled_def lengths_of_def)
next
  case False
  assume "pool d h pmask = Inr pooled"
  with False show ?thesis by (simp add: pool_def masked_fill_def bindE_def)
qed

text \<open>
  On one row of tokens and one opinion the network returns one row, so the \<open>squeeze0\<close> of
  line 93 never meets a batch it cannot squeeze.
\<close>

lemma forward_one_row:
  assumes "forward m g [tokens] [opinion] = Inr (out, g')"
  shows "\<exists>row. out = [row]"
proof -
  from assms obtain x h pooled proj cx y where
    p: "pool (embedding_dim (emb m)) h (map (map (\<lambda>t. t = PAD_IDX)) [tokens]) = Inr pooled" and
    q: "mapE (linear (op_proj m)) [opinion] = Inr proj" and
    c: "mat_add pooled proj = Inr cx" and
    y: "mapE (linear (head m)) cx = Inr y" and
    o: "out = map (map torch_tanh) y"
    by (rule forward_Inr)
  from p have "length pooled = 1" by (simp add: pool_length)
  moreover from q have "length proj = 1" using mapE_Inr_length [OF q] by simp
  ultimately have "broadcast pooled proj = Inr (zip pooled proj)"
    by (simp add: broadcast_def)
  with c have "mapE (\<lambda>(x, y). vec_add x y) (zip pooled proj) = Inr cx"
    by (simp add: mat_add_def bindE_Inr)
  from mapE_Inr_length [OF this] \<open>length pooled = 1\<close> \<open>length proj = 1\<close>
  have "length cx = 1" by simp
  with mapE_Inr_length [OF y] o have "length out = 1" by simp
  then show ?thesis by (cases out) simp_all
qed

lemma broadcast_components:
  assumes "broadcast xs ys = Inr ps" "(x, y) \<in> set ps"
  shows "x \<in> set xs \<and> y \<in> set ys"
proof (cases "length xs = length ys")
  case True
  with assms show ?thesis
    by (auto simp: broadcast_def dest: set_zip_leftD set_zip_rightD)
next
  case False
  show ?thesis
  proof (cases "length xs = 1")
    case True
    then have "hd xs \<in> set xs" by (cases xs) simp_all
    with assms False True show ?thesis
      by (auto simp: broadcast_def)
  next
    case F2: False
    show ?thesis
    proof (cases "length ys = 1")
      case True
      then have "hd ys \<in> set ys" by (cases ys) simp_all
      with assms False F2 True show ?thesis
        by (auto simp: broadcast_def)
    next
      case F3: False
      with assms False F2 show ?thesis by (simp add: broadcast_def)
    qed
  qed
qed

lemma blend_components:
  assumes "blend old upd = Inr new" "x \<in> set new"
  shows "\<exists>p\<in>set old. \<exists>u\<in>set upd. x = fl (fl (fl 0.7 * p) + fl (fl 0.3 * u))"
proof -
  from assms(1) obtain ps where ps: "broadcast old upd = Inr ps"
    and new: "mapE (\<lambda>(p, u). blend1 p u) ps = Inr new"
    by (auto simp: blend_def bindE_Inr_iff)
  from mapE_Inr_set [OF new assms(2)] obtain pu where
    "pu \<in> set ps" "(case pu of (p, u) \<Rightarrow> blend1 p u) = Inr x"
    by blast
  moreover obtain p u where "pu = (p, u)" by (cases pu)
  ultimately have pu: "(p, u) \<in> set ps" "blend1 p u = Inr x"
    by simp_all
  from broadcast_components [OF ps pu(1)] blend1_Inr [OF pu(2)] show ?thesis
    by blast
qed

lemma blend_within_unit:
  assumes "blend old upd = Inr new" "within_unit old" "\<forall>u\<in>set upd. -1 \<le> u \<and> u \<le> 1"
  shows "within_unit new"
  unfolding within_unit_def
proof
  fix x assume "x \<in> set new"
  with assms(1) obtain p u where pu: "p \<in> set old" "u \<in> set upd"
    and x: "x = fl (fl (fl 0.7 * p) + fl (fl 0.3 * u))"
    using blend_components by blast
  from pu assms(2,3) have "\<bar>p\<bar> \<le> 1" "\<bar>u\<bar> \<le> 1"
    by (auto simp: within_unit_def abs_le_iff)
  from blend_unit(3) [OF this] show "-1 \<le> x \<and> x \<le> 1"
    by (simp add: x abs_le_iff)
qed

lemma blend_unit_total:
  assumes "length old = length upd" "within_unit old" "within_unit upd"
  shows "\<exists>new. blend old upd = Inr new \<and> length new = length old \<and> within_unit new"
proof -
  let ?f = "\<lambda>(p, u). fl (fl (fl 0.7 * p) + fl (fl 0.3 * u))"
  have "mapE (\<lambda>(p, u). blend1 p u) (zip old upd) = Inr (map ?f (zip old upd))"
  proof (rule mapE_map)
    fix x assume x: "x \<in> set (zip old upd)"
    then have "fst x \<in> set old" "snd x \<in> set upd"
      using set_zip_leftD [of "fst x" "snd x"] set_zip_rightD [of "fst x" "snd x"] by simp_all
    with assms(2,3) have "\<bar>fst x\<bar> \<le> 1" "\<bar>snd x\<bar> \<le> 1"
      by (auto simp: within_unit_def abs_le_iff)
    then show "(case x of (p, u) \<Rightarrow> blend1 p u) = Inr (?f x)"
      by (cases x) (simp add: blend1_unit)
  qed
  with assms(1) have b: "blend old upd = Inr (map ?f (zip old upd))"
    by (simp add: blend_same_length)
  moreover have "length (map ?f (zip old upd)) = length old"
    using assms(1) by simp
  moreover have "within_unit (map ?f (zip old upd))"
    using b assms(2) assms(3) [unfolded within_unit_def] by (rule blend_within_unit)
  ultimately show ?thesis by blast
qed

lemma squeeze0_Inr: "squeeze0 out = Inr upd \<longleftrightarrow> out = [upd]"
  by (auto simp: squeeze0_def split: list.splits)

lemma update_agents_Cons:
  assumes "update_agents m tokens g ((name, opinion) # rest) = Inr (ags', g'', lines)"
  obtains upd g' new rest' ls where
    "forward m g tokens [opinion] = Inr ([upd], g')" "blend opinion upd = Inr new"
    "update_agents m tokens g' rest = Inr (rest', g'', ls)"
    "ags' = (name, new) # rest'" "lines = AgentLine name new # ls"
proof -
  from assms obtain out g' upd new r where
    f: "forward m g tokens [opinion] = Inr (out, g')" and
    s: "squeeze0 out = Inr upd" and
    b: "blend opinion upd = Inr new" and
    u: "update_agents m tokens g' rest = Inr r" and
    e: "Inr ((name, new) # fst r, fst (snd r), AgentLine name new # snd (snd r)) =
          (Inr (ags', g'', lines) :: error + ((string \<times> vec) list \<times> gen \<times> line list))"
    by (auto simp: bindE_Inr_iff split_beta)
  from s have "out = [upd]" by (simp add: squeeze0_Inr)
  moreover from e have "ags' = (name, new) # fst r" "g'' = fst (snd r)"
    "lines = AgentLine name new # snd (snd r)"
    by simp_all
  moreover from this u have "update_agents m tokens g' rest = Inr (fst r, g'', snd (snd r))"
    by simp
  ultimately show thesis using f b that by blast
qed

lemma update_agents_props:
  assumes "update_agents m tokens g ags = Inr (ags', g', lines)"
  shows "list_all2 carries ags ags' \<and> list_all2 (updated_once m tokens) ags ags' \<and>
     lines = map (\<lambda>a. AgentLine (fst a) (snd a)) ags'"
  using assms
proof (induction ags arbitrary: g ags' lines)
  case Nil
  then show ?case by simp
next
  case (Cons a ags)
  obtain name opinion where a: "a = (name, opinion)" by (cases a)
  from Cons.prems [unfolded a] obtain upd g1 new rest' ls where
    f: "forward m g tokens [opinion] = Inr ([upd], g1)" and
    b: "blend opinion upd = Inr new" and
    u: "update_agents m tokens g1 ags = Inr (rest', g', ls)" and
    e: "ags' = (name, new) # rest'" "lines = AgentLine name new # ls"
    by (rule update_agents_Cons)
  from f have "\<forall>u\<in>set upd. -1 \<le> u \<and> u \<le> 1"
    using forward_range [of m g tokens "[opinion]" "[upd]" g1 upd] by simp
  with b have "within_unit opinion \<longrightarrow> within_unit new"
    using blend_within_unit by blast
  moreover from f b have "updated_once m tokens (name, opinion) (name, new)"
    unfolding updated_once_def by auto
  ultimately show ?case
    using Cons.IH [OF u] a e by (simp add: carries_def)
qed

lemma forward_eval_generator:
  assumes "keeps_generator (encoder m)" "training m = False"
    "forward m g tokens opinion = Inr (out, g1)"
  shows "g1 = g"
proof -
  from assms(3) obtain x h where
    "encoder m (training m) g x (map (map (\<lambda>t. t = PAD_IDX)) tokens) = Inr (h, g1)"
    by (rule forward_Inr)
  with assms(1,2) show ?thesis
    unfolding keeps_generator_def by auto
qed

lemma update_agents_generator:
  assumes "keeps_generator (encoder m)" "training m = False"
    "update_agents m tokens g ags = Inr (ags', g', lines)"
  shows "g' = g"
  using assms(3)
proof (induction ags arbitrary: g ags' lines)
  case Nil
  then show ?case by simp
next
  case (Cons a ags)
  obtain name opinion where a: "a = (name, opinion)" by (cases a)
  from Cons.prems [unfolded a] obtain upd g1 rest' ls where
    f: "forward m g tokens [opinion] = Inr ([upd], g1)" and
    u: "update_agents m tokens g1 ags = Inr (rest', g', ls)"
    by (rule update_agents_Cons)
  from forward_eval_generator [OF assms(1,2) f] have "g1 = g" .
  with Cons.IH [OF u] show ?case by simp
qed

lemma constructed_fields:
  assumes "constructed n k d m"
  shows "num_embeddings (emb m) = n" "in_features (op_proj m) = k"
  using assms by (simp_all add: constructed_def Embedding_shape_def Linear_shape_def)

lemma update_agents_total:
  assumes "constructed n k d m" "\<forall>t\<in>set tokens. 0 \<le> t \<and> t < int n"
    "\<exists>t\<in>set tokens. t \<noteq> PAD_IDX"
    "\<forall>a\<in>set ags. length (snd a) = k \<and> within_unit (snd a)"
  shows "\<exists>ags' g' lines. update_agents m [tokens] g ags = Inr (ags', g', lines) \<and>
     (\<forall>a\<in>set ags'. length (snd a) = k \<and> within_unit (snd a))"
  using assms(4)
proof (induction ags arbitrary: g)
  case Nil
  show ?case by simp
next
  case (Cons a ags)
  obtain name opinion where a: "a = (name, opinion)" by (cases a)
  with Cons.prems have lo: "length opinion = k" and wo: "within_unit opinion" by simp_all
  have "valid_input m [tokens] [opinion]"
    using assms(1,2) lo by (simp add: valid_input_def constructed_fields [OF assms(1)])
  moreover have "has_tokens [tokens]"
    using assms(3) by (simp add: has_tokens_def)
  ultimately obtain out g1 where
    f: "forward m g [tokens] [opinion] = Inr (out, g1)" and
    l: "length out = 1" and r: "\<forall>row\<in>set out. length row = k"
    using forward_total [OF assms(1), of "[tokens]" "[opinion]" g] by auto
  from l obtain upd where out: "out = [upd]"
    by (cases out) simp_all
  with r have lu: "length upd = k" by simp
  from f out have "within_unit upd"
    using forward_range [of m g "[tokens]" "[opinion]" "[upd]" g1 upd]
    by (simp add: within_unit_def)
  with lo lu wo obtain new where
    b: "blend opinion upd = Inr new" and ln: "length new = k" and wn: "within_unit new"
    using blend_unit_total [of opinion upd] by auto
  from Cons.prems have "\<forall>a\<in>set ags. length (snd a) = k \<and> within_unit (snd a)" by simp
  from Cons.IH [OF this, of g1] obtain rest' g' ls where
    u: "update_agents m [tokens] g1 ags = Inr (rest', g', ls)" and
    k: "\<forall>a\<in>set rest'. length (snd a) = k \<and> within_unit (snd a)"
    by blast
  from f out b u have "update_agents m [tokens] g (a # ags) =
      Inr ((name, new) # rest', g', AgentLine name new # ls)"
    by (simp add: a bindE_Inr squeeze0_def)
  with k ln wn show ?case by simp
qed

lemma carries_names: "list_all2 carries xs ys \<Longrightarrow> map fst ys = map fst xs"
  by (induction rule: list_all2_induct) (simp_all add: carries_def)

lemma carries_within_unit:
  "list_all2 carries xs ys \<Longrightarrow> \<forall>a\<in>set xs. within_unit (snd a) \<Longrightarrow> \<forall>a\<in>set ys. within_unit (snd a)"
  by (induction rule: list_all2_induct) (simp_all add: carries_def)

lemma carries_trans:
  assumes "list_all2 carries xs ys" "list_all2 carries ys zs"
  shows "list_all2 carries xs zs"
proof (rule list_all2_trans [OF _ assms])
  fix x y z assume "carries x y" "carries y z"
  then show "carries x z" by (simp add: carries_def)
qed

lemma run_timeline_Cons:
  assumes "run_timeline vocab step (event # events) st = Inr st'"
  obtains toks tokens ags' g' lines where
    "encode event vocab = Inr toks" "pad_to_max toks = Inr tokens"
    "update_agents (model st) [tokens] (generator st) (agents st) = Inr (ags', g', lines)"
    "run_timeline vocab (Suc step) events
       (st\<lparr>agents := ags', generator := g', printed := printed st @ StepLine step event # lines\<rparr>) =
     Inr st'"
proof -
  from assms obtain toks tokens r where
    "encode event vocab = Inr toks" "pad_to_max toks = Inr tokens"
    "update_agents (model st) [tokens] (generator st) (agents st) = Inr r"
    "run_timeline vocab (Suc step) events
       (st\<lparr>agents := fst r, generator := fst (snd r),
           printed := printed st @ StepLine step event # snd (snd r)\<rparr>) = Inr st'"
    by (auto simp: bindE_Inr_iff split_beta)
  with that [of toks tokens "fst r" "fst (snd r)" "snd (snd r)"] show thesis by simp
qed

lemma run_timeline_Nil_step:
  assumes "run_timeline vocab step [event] st = Inr st'"
  obtains toks tokens ags' g' where
    "encode event vocab = Inr toks" "pad_to_max toks = Inr tokens"
    "update_agents (model st) [tokens] (generator st) (agents st) =
       Inr (ags', g', map (\<lambda>a. AgentLine (fst a) (snd a)) ags')"
    "list_all2 (updated_once (model st) [tokens]) (agents st) ags'"
    "st' = st\<lparr>agents := ags', generator := g',
       printed := printed st @ StepLine step event # map (\<lambda>a. AgentLine (fst a) (snd a)) ags'\<rparr>"
proof -
  from assms obtain toks tokens ags' g' lines where
    e: "encode event vocab = Inr toks" "pad_to_max toks = Inr tokens" and
    u: "update_agents (model st) [tokens] (generator st) (agents st) = Inr (ags', g', lines)" and
    r: "run_timeline vocab (Suc step) []
       (st\<lparr>agents := ags', generator := g', printed := printed st @ StepLine step event # lines\<rparr>) =
     Inr st'"
    by (rule run_timeline_Cons)
  from update_agents_props [OF u] have
    o: "list_all2 (updated_once (model st) [tokens]) (agents st) ags'" and
    l: "lines = map (\<lambda>a. AgentLine (fst a) (snd a)) ags'"
    by simp_all
  from r have "st' = st\<lparr>agents := ags', generator := g',
      printed := printed st @ StepLine step event # lines\<rparr>"
    by simp
  with e u o l that show thesis by blast
qed

lemma run_timeline_props:
  assumes "run_timeline vocab step events st = Inr st'"
  shows "model st' = model st \<and> list_all2 carries (agents st) (agents st') \<and>
     (\<exists>new. printed st' = printed st @ new \<and>
        map erase new = trace step events (map fst (agents st)) \<and>
        ((\<forall>a\<in>set (agents st). within_unit (snd a)) \<longrightarrow> (\<forall>l\<in>set new. line_within_unit l)))"
  using assms
proof (induction events arbitrary: step st)
  case Nil
  then have "st' = st" by simp
  moreover have "list_all2 carries (agents st) (agents st)"
    by (simp add: list_all2_refl carries_def)
  ultimately show ?case by simp
next
  case (Cons event events)
  from Cons.prems obtain toks tokens ags' g' lines where
    u: "update_agents (model st) [tokens] (generator st) (agents st) = Inr (ags', g', lines)" and
    r: "run_timeline vocab (Suc step) events
       (st\<lparr>agents := ags', generator := g', printed := printed st @ StepLine step event # lines\<rparr>) =
     Inr st'"
    by (rule run_timeline_Cons)
  let ?st1 = "st\<lparr>agents := ags', generator := g', printed := printed st @ StepLine step event # lines\<rparr>"
  from update_agents_props [OF u] have
    c1: "list_all2 carries (agents st) ags'" and
    ls: "lines = map (\<lambda>a. AgentLine (fst a) (snd a)) ags'"
    by simp_all
  from Cons.IH [OF r] obtain new1 where
    m: "model st' = model st" and
    c2: "list_all2 carries ags' (agents st')" and
    p: "printed st' = (printed st @ StepLine step event # lines) @ new1" and
    t: "map erase new1 = trace (Suc step) events (map fst ags')" and
    b: "(\<forall>a\<in>set ags'. within_unit (snd a)) \<longrightarrow> (\<forall>l\<in>set new1. line_within_unit l)"
    by auto
  let ?new = "StepLine step event # lines @ new1"
  from c1 have names: "map fst ags' = map fst (agents st)" by (rule carries_names)
  have "map erase lines = map (\<lambda>n. AgentLine n []) (map fst ags')"
    by (simp add: ls comp_def)
  with t names have tr: "map erase ?new = trace step (event # events) (map fst (agents st))"
    by simp
  have bd: "(\<forall>a\<in>set (agents st). within_unit (snd a)) \<longrightarrow> (\<forall>l\<in>set ?new. line_within_unit l)"
  proof
    assume "\<forall>a\<in>set (agents st). within_unit (snd a)"
    with c1 have a1: "\<forall>a\<in>set ags'. within_unit (snd a)" by (rule carries_within_unit)
    then have "\<forall>l\<in>set lines. line_within_unit l" by (simp add: ls)
    with a1 b show "\<forall>l\<in>set ?new. line_within_unit l" by auto
  qed
  from p have "printed st' = printed st @ ?new" by simp
  with m carries_trans [OF c1 c2] tr bd show ?case by blast
qed

lemma run_timeline_generator:
  assumes "keeps_generator (encoder (model st))" "training (model st) = False"
    "run_timeline vocab step events st = Inr st'"
  shows "generator st' = generator st"
  using assms
proof (induction events arbitrary: step st)
  case Nil
  then show ?case by simp
next
  case (Cons event events)
  from Cons.prems(3) obtain toks tokens ags' g' lines where
    u: "update_agents (model st) [tokens] (generator st) (agents st) = Inr (ags', g', lines)" and
    r: "run_timeline vocab (Suc step) events
       (st\<lparr>agents := ags', generator := g', printed := printed st @ StepLine step event # lines\<rparr>) =
     Inr st'"
    by (rule run_timeline_Cons)
  from update_agents_generator [OF Cons.prems(1,2) u] have "g' = generator st" .
  moreover from Cons.IH [OF _ _ r] Cons.prems(1,2) have "generator st' = g'" by simp
  ultimately show ?case by simp
qed

lemma run_timeline_total:
  assumes "constructed n k d (model st)"
    "\<forall>a\<in>set (agents st). length (snd a) = k \<and> within_unit (snd a)"
    "\<forall>event\<in>set events. \<exists>toks tokens. encode event vocab = Inr toks \<and>
        pad_to_max toks = Inr tokens \<and> (\<forall>t\<in>set tokens. 0 \<le> t \<and> t < int n) \<and>
        (\<exists>t\<in>set tokens. t \<noteq> PAD_IDX)"
  shows "\<exists>st'. run_timeline vocab step events st = Inr st'"
  using assms
proof (induction events arbitrary: step st)
  case Nil
  show ?case by simp
next
  case (Cons event events)
  from Cons.prems(3) obtain toks tokens where
    e: "encode event vocab = Inr toks" "pad_to_max toks = Inr tokens"
      "\<forall>t\<in>set tokens. 0 \<le> t \<and> t < int n" "\<exists>t\<in>set tokens. t \<noteq> PAD_IDX"
    by auto
  from update_agents_total [OF Cons.prems(1) e(3) e(4) Cons.prems(2), of "generator st"]
  obtain ags' g' lines where
    u: "update_agents (model st) [tokens] (generator st) (agents st) = Inr (ags', g', lines)" and
    k: "\<forall>a\<in>set ags'. length (snd a) = k \<and> within_unit (snd a)"
    by blast
  let ?st1 = "st\<lparr>agents := ags', generator := g', printed := printed st @ StepLine step event # lines\<rparr>"
  have "\<exists>st'. run_timeline vocab (Suc step) events ?st1 = Inr st'"
    using Cons.prems(1,3) k by (intro Cons.IH) simp_all
  with e u show ?case by (simp add: bindE_Inr)
qed

lemma bindE_assoc: "bindE (bindE r f) k = bindE r (\<lambda>a. bindE (f a) k)"
  by (cases r) (simp_all add: bindE_def)

lemma run_timeline_append:
  "run_timeline vocab step (xs @ ys) st =
     bindE (run_timeline vocab step xs st) (run_timeline vocab (step + length xs) ys)"
proof (induction xs arbitrary: step st)
  case Nil
  show ?case by (simp add: bindE_Inr)
next
  case (Cons x xs)
  show ?case
    by (simp add: Cons.IH bindE_def split: sum.splits prod.splits)
qed

subsection \<open>The simulation of \<open>main\<close>\<close>

lemma vocab_size: "length (build_vocab train_samples) = 28"
  by (simp add: train_vocab)

lemma timeline_valid:
  "\<forall>event\<in>set timeline. \<exists>toks tokens. encode event (build_vocab train_samples) = Inr toks \<and>
      pad_to_max toks = Inr tokens \<and> (\<forall>t\<in>set tokens. 0 \<le> t \<and> t < int 28) \<and>
      (\<exists>t\<in>set tokens. t \<noteq> PAD_IDX)"
proof
  fix event assume "event \<in> set timeline"
  then have "bindE (encode event (build_vocab train_samples)) pad_to_max \<in>
      set (map (\<lambda>event. bindE (encode event (build_vocab train_samples)) pad_to_max) timeline)"
    by simp
  then have "\<exists>tokens. bindE (encode event (build_vocab train_samples)) pad_to_max = Inr tokens \<and>
      (\<forall>t\<in>set tokens. 0 \<le> t \<and> t < 28) \<and> (\<exists>t\<in>set tokens. t \<noteq> PAD_IDX)"
    unfolding timeline_tokens by (auto simp: PAD_IDX_def)
  then show "\<exists>toks tokens. encode event (build_vocab train_samples) = Inr toks \<and>
      pad_to_max toks = Inr tokens \<and> (\<forall>t\<in>set tokens. 0 \<le> t \<and> t < int 28) \<and>
      (\<exists>t\<in>set tokens. t \<noteq> PAD_IDX)"
    by (auto simp: bindE_Inr_iff)
qed

lemma constructed_eval_mode: "constructed n k d m \<Longrightarrow> constructed n k d (eval_mode m)"
  by (simp add: constructed_def eval_mode_def)

lemma within_unit_fl: "within_unit v \<Longrightarrow> within_unit (map fl v)"
proof -
  assume v: "within_unit v"
  have "-1 \<le> fl x \<and> fl x \<le> 1" if "x \<in> set v" for x
  proof -
    from v that have "\<bar>x\<bar> \<le> 1" by (simp add: within_unit_def abs_le_iff)
    then have "\<bar>fl x\<bar> \<le> 1" by (rule fl_abs_le_one)
    then show ?thesis by (simp add: abs_le_iff)
  qed
  then show ?thesis by (simp add: within_unit_def)
qed

lemma agents_0_lengths: "\<forall>a\<in>set agents_0. length (snd a) = 3"
  by (simp add: agents_0_def)

lemma agents_0_within_unit: "\<forall>a\<in>set agents_0. within_unit (snd a)"
proof -
  have "within_unit (map fl [0.2, -0.1, 0.1])" "within_unit (map fl [-0.3, 0.4, -0.2])"
    "within_unit (map fl [0.5, -0.2, 0.6])"
    by (rule within_unit_fl, simp add: within_unit_def)+
  then show ?thesis
    by (simp add: agents_0_def)
qed

lemma timeline_prefix_total:
  assumes "constructed (length (build_vocab train_samples)) 3 d m"
  shows "\<exists>st'. run_timeline (build_vocab train_samples) 1 (take j timeline)
     \<lparr>model = eval_mode m, agents = agents_0, generator = g, printed = []\<rparr> = Inr st'"
proof (rule run_timeline_total [where n = 28 and k = 3 and d = d])
  show "constructed 28 3 d (model \<lparr>model = eval_mode m, agents = agents_0, generator = g, printed = []\<rparr>)"
    using assms by (simp add: vocab_size constructed_eval_mode)
  show "\<forall>a\<in>set (agents \<lparr>model = eval_mode m, agents = agents_0, generator = g, printed = []\<rparr>).
      length (snd a) = 3 \<and> within_unit (snd a)"
    using agents_0_lengths agents_0_within_unit by simp
  show "\<forall>event\<in>set (take j timeline). \<exists>toks tokens.
      encode event (build_vocab train_samples) = Inr toks \<and>
      pad_to_max toks = Inr tokens \<and> (\<forall>t\<in>set tokens. 0 \<le> t \<and> t < int 28) \<and>
      (\<exists>t\<in>set tokens. t \<noteq> PAD_IDX)"
    using timeline_valid by (meson in_set_takeD)
qed

lemma simulation_total:
  assumes "constructed (length (build_vocab train_samples)) 3 d m"
  shows "\<exists>st'. simulation m g = Inr st'"
  using timeline_prefix_total [OF assms, of "length timeline" g]
  by (simp add: simulation_def)

lemma opinions_of_append:
  "opinions_of name (xs @ ys) = opinions_of name xs @ opinions_of name ys"
  by (induction xs rule: opinions_of.induct) simp_all

lemma opinions_of_erase:
  "length (opinions_of name (map erase ls)) = length (opinions_of name ls)"
  by (induction ls rule: opinions_of.induct) simp_all

lemma opinions_of_names:
  "length (opinions_of name (map (\<lambda>n. AgentLine n []) names)) = count_list names name"
  by (induction names) simp_all

lemma opinions_of_trace:
  "length (opinions_of name (trace step events names)) = length events * count_list names name"
  by (induction events arbitrary: step) (simp_all add: opinions_of_append opinions_of_names)

lemma opinions_of_within_unit:
  "\<forall>l\<in>set ls. line_within_unit l \<Longrightarrow> list_all within_unit (opinions_of name ls)"
  by (induction ls rule: opinions_of.induct) simp_all

lemma carries_nth:
  assumes "list_all2 carries xs ys" "i < length xs" "within_unit (snd (xs ! i))"
  shows "i < length ys \<and> fst (ys ! i) = fst (xs ! i) \<and> within_unit (snd (ys ! i))"
proof -
  from assms(1) have "length xs = length ys" by (rule list_all2_lengthD)
  moreover from assms(1,2) have "carries (xs ! i) (ys ! i)" by (rule list_all2_nthD)
  ultimately show ?thesis using assms(2,3) by (simp add: carries_def)
qed

lemma simulation_props:
  assumes "simulation m g = Inr st'"
  shows "model st' = eval_mode m" "map fst (agents st') = [''Ava'', ''Ben'', ''Chen'']"
    "map erase (printed st') = trace 1 timeline [''Ava'', ''Ben'', ''Chen'']"
    "\<forall>l\<in>set (printed st'). line_within_unit l"
proof -
  let ?st = "\<lparr>model = eval_mode m, agents = agents_0, generator = g, printed = []\<rparr>"
  from assms have r: "run_timeline (build_vocab train_samples) 1 timeline ?st = Inr st'"
    by (simp add: simulation_def)
  have n: "map fst agents_0 = [''Ava'', ''Ben'', ''Chen'']"
    by (simp add: agents_0_def)
  from run_timeline_props [OF r] obtain new where
    m: "model st' = eval_mode m" and c: "list_all2 carries agents_0 (agents st')" and
    p: "printed st' = new" and t: "map erase new = trace 1 timeline (map fst agents_0)" and
    b: "(\<forall>a\<in>set agents_0. within_unit (snd a)) \<longrightarrow> (\<forall>l\<in>set new. line_within_unit l)"
    by auto
  show "model st' = eval_mode m" by (rule m)
  from carries_names [OF c] n show "map fst (agents st') = [''Ava'', ''Ben'', ''Chen'']"
    by simp
  from t p n show "map erase (printed st') = trace 1 timeline [''Ava'', ''Ben'', ''Chen'']"
    by simp
  from b agents_0_within_unit p show "\<forall>l\<in>set (printed st'). line_within_unit l"
    by simp
qed

lemma small_model_constructed: "constructed (length (build_vocab train_samples)) 3 1 small_model"
  by (simp add: vocab_size constructed_def small_model_def Embedding_shape_def Linear_shape_def
      zero_encoder_keeps_shape list_all_iff)

text \<open>
  Claim C3. Take any state of the loop and any number \<open>j\<close> of events. If the loop, run on
  the first \<open>j\<close> events, returns, then an agent whose opinion was within \<open>[-1, 1]\<close> in
  every component before is the same agent with an opinion within \<open>[-1, 1]\<close> after: the
  invariant holds after every step. Nothing is assumed of the predictions; they are
  bounded because \<open>forward\<close> ends with \<^verbatim>\<open>torch.tanh\<close>, and the weights of the blend are
  the \<^verbatim>\<open>float32\<close> numbers nearest to 0.7 and 0.3, whose sum is 1; rounding is monotone and
  leaves -1 and 1 where they are, so the bound holds of the rounded result. And for every
  model with the shapes \<open>main\<close> constructs it with, the simulation of \<open>main\<close> returns, and
  it has printed exactly five opinions for Ava, each within \<open>[-1, 1]\<close> in every component.
\<close>

theorem opinions_stay_within_unit:
  "(run_timeline vocab step (take j events) st = Inr st' \<and> i < length (agents st) \<and>
      within_unit (snd (agents st ! i)) \<longrightarrow>
      i < length (agents st') \<and> fst (agents st' ! i) = fst (agents st ! i) \<and>
      within_unit (snd (agents st' ! i))) \<and>
   (constructed (length (build_vocab train_samples)) 3 d m \<longrightarrow>
      (\<exists>st'. simulation m g = Inr st' \<and> length (opinions_of ''Ava'' (printed st')) = 5 \<and>
         list_all within_unit (opinions_of ''Ava'' (printed st'))))"
proof (rule conjI)
  show "run_timeline vocab step (take j events) st = Inr st' \<and> i < length (agents st) \<and>
      within_unit (snd (agents st ! i)) \<longrightarrow>
      i < length (agents st') \<and> fst (agents st' ! i) = fst (agents st ! i) \<and>
      within_unit (snd (agents st' ! i))"
  proof
    assume h: "run_timeline vocab step (take j events) st = Inr st' \<and> i < length (agents st) \<and>
      within_unit (snd (agents st ! i))"
    then have "list_all2 carries (agents st) (agents st')"
      using run_timeline_props [of vocab step "take j events" st st'] by simp
    with h show "i < length (agents st') \<and> fst (agents st' ! i) = fst (agents st ! i) \<and>
      within_unit (snd (agents st' ! i))"
      by (simp add: carries_nth)
  qed
  show "constructed (length (build_vocab train_samples)) 3 d m \<longrightarrow>
      (\<exists>st'. simulation m g = Inr st' \<and> length (opinions_of ''Ava'' (printed st')) = 5 \<and>
         list_all within_unit (opinions_of ''Ava'' (printed st')))"
  proof
    assume "constructed (length (build_vocab train_samples)) 3 d m"
    from simulation_total [OF this, of g] obtain st' where s: "simulation m g = Inr st'" ..
    have "length (opinions_of ''Ava'' (printed st')) =
        length (opinions_of ''Ava'' (map erase (printed st')))"
      by (simp add: opinions_of_erase)
    also have "\<dots> = 5"
      by (simp add: simulation_props(3) [OF s] opinions_of_trace timeline_def)
    finally have "length (opinions_of ''Ava'' (printed st')) = 5" .
    moreover have "list_all within_unit (opinions_of ''Ava'' (printed st'))"
      using simulation_props(4) [OF s] by (rule opinions_of_within_unit)
    ultimately show "\<exists>st'. simulation m g = Inr st' \<and> length (opinions_of ''Ava'' (printed st')) = 5 \<and>
         list_all within_unit (opinions_of ''Ava'' (printed st'))"
      using s by blast
  qed
qed

theorem opinions_stay_within_unit_witness:
  "(\<exists>st'. run_timeline (build_vocab train_samples) 1 (take 2 timeline)
       \<lparr>model = eval_mode small_model, agents = agents_0, generator = 0, printed = []\<rparr> = Inr st' \<and>
       fst (agents st' ! 0) = ''Ava'' \<and> within_unit (snd (agents st' ! 0))) \<and>
   (\<exists>st'. simulation small_model 0 = Inr st' \<and> length (opinions_of ''Ava'' (printed st')) = 5 \<and>
      list_all within_unit (opinions_of ''Ava'' (printed st')))"
proof (rule conjI)
  let ?st = "\<lparr>model = eval_mode small_model, agents = agents_0, generator = 0, printed = []\<rparr>"
  from timeline_prefix_total [OF small_model_constructed, of 2 0] obtain st' where
    r: "run_timeline (build_vocab train_samples) 1 (take 2 timeline) ?st = Inr st'" ..
  have "within_unit (snd (agents_0 ! 0))"
    using agents_0_within_unit by (simp add: agents_0_def)
  then have "0 < length (agents ?st)" "within_unit (snd (agents ?st ! 0))"
    "fst (agents ?st ! 0) = ''Ava''"
    by (simp_all add: agents_0_def)
  with r opinions_stay_within_unit [of "build_vocab train_samples" 1 2 timeline ?st st' 0]
  have "fst (agents st' ! 0) = ''Ava'' \<and> within_unit (snd (agents st' ! 0))"
    by simp
  with r show "\<exists>st'. run_timeline (build_vocab train_samples) 1 (take 2 timeline) ?st = Inr st' \<and>
       fst (agents st' ! 0) = ''Ava'' \<and> within_unit (snd (agents st' ! 0))"
    by blast
  from opinions_stay_within_unit [of _ _ _ _ _ _ _ 1 small_model 0] small_model_constructed
  show "\<exists>st'. simulation small_model 0 = Inr st' \<and> length (opinions_of ''Ava'' (printed st')) = 5 \<and>
      list_all within_unit (opinions_of ''Ava'' (printed st'))"
    by blast
qed

text \<open>
  Claim C9. Take a run of the loop that returns, on some events and then one event more.
  The run on the events before returns too, and the last event has changed its state in
  this way: each agent's entry has the same name, and its opinion is the blend (line 94)
  of the opinion it had after the events before with the network's one prediction for
  that opinion (line 93), the agents in the same order; the step line and one line for
  each agent, showing the new opinion, have been printed; the model is the model the run
  started with. So every event mutates every agent's opinion once, and nothing else.
  Over a whole run that returns: the model is unchanged, parameters and mode; the names
  of the agents and their order are unchanged; and the lines printed are, for each event
  in turn, the step line and one line for each agent, so as many for a name as there are
  events (times the entries of that name, one in a dictionary). In evaluation mode, where
  the library's encoder draws nothing, the random generator is left as it was. The
  simulation of \<open>main\<close> returns, with the model that \<^verbatim>\<open>model.eval()\<close> left, the three
  agents, and five opinions printed for each of them.
\<close>

theorem simulation_mutates_opinions_only:
  "(run_timeline vocab step (pre @ [event]) st = Inr st2 \<longrightarrow>
      (\<exists>st1 toks tokens.
         run_timeline vocab step pre st = Inr st1 \<and>
         encode event vocab = Inr toks \<and> pad_to_max toks = Inr tokens \<and>
         list_all2 (updated_once (model st) [tokens]) (agents st1) (agents st2) \<and>
         printed st2 = printed st1 @ StepLine (step + length pre) event #
            map (\<lambda>a. AgentLine (fst a) (snd a)) (agents st2) \<and>
         model st2 = model st)) \<and>
   (run_timeline vocab step events st = Inr st' \<longrightarrow>
      model st' = model st \<and> map fst (agents st') = map fst (agents st) \<and>
      (\<exists>new. printed st' = printed st @ new \<and>
         map erase new = trace step events (map fst (agents st)) \<and>
         (\<forall>name. length (opinions_of name new) =
            length events * count_list (map fst (agents st)) name))) \<and>
   (run_timeline vocab step events st = Inr st' \<and> keeps_generator (encoder (model st)) \<and>
      training (model st) = False \<longrightarrow> generator st' = generator st) \<and>
   (constructed (length (build_vocab train_samples)) 3 d m \<longrightarrow>
      (\<exists>st'. simulation m g = Inr st' \<and> model st' = eval_mode m \<and>
         map fst (agents st') = [''Ava'', ''Ben'', ''Chen''] \<and>
         map erase (printed st') = trace 1 timeline [''Ava'', ''Ben'', ''Chen''] \<and>
         list_all (\<lambda>name. length (opinions_of name (printed st')) = 5)
           [''Ava'', ''Ben'', ''Chen'']))"
proof (intro conjI)
  show "run_timeline vocab step (pre @ [event]) st = Inr st2 \<longrightarrow>
      (\<exists>st1 toks tokens.
         run_timeline vocab step pre st = Inr st1 \<and>
         encode event vocab = Inr toks \<and> pad_to_max toks = Inr tokens \<and>
         list_all2 (updated_once (model st) [tokens]) (agents st1) (agents st2) \<and>
         printed st2 = printed st1 @ StepLine (step + length pre) event #
            map (\<lambda>a. AgentLine (fst a) (snd a)) (agents st2) \<and>
         model st2 = model st)"
  proof
    assume "run_timeline vocab step (pre @ [event]) st = Inr st2"
    then obtain st1 where
      r1: "run_timeline vocab step pre st = Inr st1" and
      r2: "run_timeline vocab (step + length pre) [event] st1 = Inr st2"
      by (auto simp: run_timeline_append bindE_Inr_iff)
    from run_timeline_props [OF r1] have m1: "model st1 = model st" by simp
    from r2 obtain toks tokens ags' g' where
      e: "encode event vocab = Inr toks" "pad_to_max toks = Inr tokens" and
      o: "list_all2 (updated_once (model st1) [tokens]) (agents st1) ags'" and
      s: "st2 = st1\<lparr>agents := ags', generator := g',
         printed := printed st1 @ StepLine (step + length pre) event #
           map (\<lambda>a. AgentLine (fst a) (snd a)) ags'\<rparr>"
      by (rule run_timeline_Nil_step)
    from s have "agents st2 = ags'" "model st2 = model st1"
      "printed st2 = printed st1 @ StepLine (step + length pre) event #
         map (\<lambda>a. AgentLine (fst a) (snd a)) (agents st2)"
      by simp_all
    with r1 e o m1 show "\<exists>st1 toks tokens.
         run_timeline vocab step pre st = Inr st1 \<and>
         encode event vocab = Inr toks \<and> pad_to_max toks = Inr tokens \<and>
         list_all2 (updated_once (model st) [tokens]) (agents st1) (agents st2) \<and>
         printed st2 = printed st1 @ StepLine (step + length pre) event #
            map (\<lambda>a. AgentLine (fst a) (snd a)) (agents st2) \<and>
         model st2 = model st"
      by (intro exI [of _ st1] exI [of _ toks] exI [of _ tokens]) simp
  qed
  show "run_timeline vocab step events st = Inr st' \<longrightarrow>
      model st' = model st \<and> map fst (agents st') = map fst (agents st) \<and>
      (\<exists>new. printed st' = printed st @ new \<and>
         map erase new = trace step events (map fst (agents st)) \<and>
         (\<forall>name. length (opinions_of name new) =
            length events * count_list (map fst (agents st)) name))"
  proof
    assume "run_timeline vocab step events st = Inr st'"
    from run_timeline_props [OF this] obtain new where
      m: "model st' = model st" and c: "list_all2 carries (agents st) (agents st')" and
      p: "printed st' = printed st @ new" and
      t: "map erase new = trace step events (map fst (agents st))"
      by auto
    have "length (opinions_of name new) = length events * count_list (map fst (agents st)) name"
      for name
    proof -
      have "length (opinions_of name new) = length (opinions_of name (map erase new))"
        by (simp add: opinions_of_erase)
      then show ?thesis by (simp add: t opinions_of_trace)
    qed
    with m carries_names [OF c] p t
    show "model st' = model st \<and> map fst (agents st') = map fst (agents st) \<and>
      (\<exists>new. printed st' = printed st @ new \<and>
         map erase new = trace step events (map fst (agents st)) \<and>
         (\<forall>name. length (opinions_of name new) =
            length events * count_list (map fst (agents st)) name))"
      by blast
  qed
  show "run_timeline vocab step events st = Inr st' \<and> keeps_generator (encoder (model st)) \<and>
      training (model st) = False \<longrightarrow> generator st' = generator st"
    using run_timeline_generator [of st vocab step events st'] by blast
  show "constructed (length (build_vocab train_samples)) 3 d m \<longrightarrow>
      (\<exists>st'. simulation m g = Inr st' \<and> model st' = eval_mode m \<and>
         map fst (agents st') = [''Ava'', ''Ben'', ''Chen''] \<and>
         map erase (printed st') = trace 1 timeline [''Ava'', ''Ben'', ''Chen''] \<and>
         list_all (\<lambda>name. length (opinions_of name (printed st')) = 5)
           [''Ava'', ''Ben'', ''Chen''])"
  proof
    assume "constructed (length (build_vocab train_samples)) 3 d m"
    from simulation_total [OF this, of g] obtain st' where s: "simulation m g = Inr st'" ..
    note e = simulation_props(3) [OF s]
    have "length (opinions_of name (printed st')) =
        length timeline * count_list [''Ava'', ''Ben'', ''Chen''] name" for name
    proof -
      have "length (opinions_of name (printed st')) =
          length (opinions_of name (map erase (printed st')))"
        by (simp add: opinions_of_erase)
      then show ?thesis by (simp add: e opinions_of_trace)
    qed
    then have "list_all (\<lambda>name. length (opinions_of name (printed st')) = 5)
           [''Ava'', ''Ben'', ''Chen'']"
      by (simp add: timeline_def)
    with s simulation_props(1,2) [OF s] e
    show "\<exists>st'. simulation m g = Inr st' \<and> model st' = eval_mode m \<and>
         map fst (agents st') = [''Ava'', ''Ben'', ''Chen''] \<and>
         map erase (printed st') = trace 1 timeline [''Ava'', ''Ben'', ''Chen''] \<and>
         list_all (\<lambda>name. length (opinions_of name (printed st')) = 5)
           [''Ava'', ''Ben'', ''Chen'']"
      by (intro exI [of _ st'] conjI)
  qed
qed

lemma small_model_eval:
  "keeps_generator (encoder (eval_mode small_model)) \<and> training (eval_mode small_model) = False"
  by (auto simp: keeps_generator_def eval_mode_def small_model_def zero_encoder_def
      split: if_splits)

theorem simulation_mutates_opinions_only_witness:
  "(\<exists>st1 st2 toks tokens.
      run_timeline (build_vocab train_samples) 1 [''climate change urgent action'']
        \<lparr>model = eval_mode small_model, agents = agents_0, generator = 7, printed = []\<rparr> = Inr st1 \<and>
      run_timeline (build_vocab train_samples) 1
        [''climate change urgent action'', ''green jobs program'']
        \<lparr>model = eval_mode small_model, agents = agents_0, generator = 7, printed = []\<rparr> = Inr st2 \<and>
      encode ''green jobs program'' (build_vocab train_samples) = Inr toks \<and>
      pad_to_max toks = Inr tokens \<and>
      list_all2 (updated_once (eval_mode small_model) [tokens]) (agents st1) (agents st2) \<and>
      printed st2 = printed st1 @ StepLine 2 ''green jobs program'' #
         map (\<lambda>a. AgentLine (fst a) (snd a)) (agents st2)) \<and>
   (\<exists>st'. simulation small_model 7 = Inr st' \<and> model st' = eval_mode small_model \<and>
      generator st' = 7 \<and> map fst (agents st') = [''Ava'', ''Ben'', ''Chen''] \<and>
      length (opinions_of ''Ben'' (printed st')) = 5)"
proof (rule conjI)
  let ?st = "\<lparr>model = eval_mode small_model, agents = agents_0, generator = 7, printed = []\<rparr>"
  let ?V = "build_vocab train_samples"
  note t = simulation_mutates_opinions_only
  have tk: "take 2 timeline = [''climate change urgent action''] @ [''green jobs program'']"
    by (simp add: timeline_def)
  from timeline_prefix_total [OF small_model_constructed, of 2 7] obtain st2 where
    r: "run_timeline ?V 1 ([''climate change urgent action''] @ [''green jobs program'']) ?st = Inr st2"
    unfolding tk ..
  note t1 = t [of ?V 1 "[''climate change urgent action'']" "''green jobs program''" ?st st2,
      THEN conjunct1, THEN mp, OF r]
  from t1 obtain st1 toks tokens where
    a: "run_timeline ?V 1 [''climate change urgent action''] ?st = Inr st1" and
    b: "encode ''green jobs program'' ?V = Inr toks" "pad_to_max toks = Inr tokens" and
    c: "list_all2 (updated_once (model ?st) [tokens]) (agents st1) (agents st2)" and
    d: "printed st2 = printed st1 @
         StepLine (1 + length [''climate change urgent action'']) ''green jobs program'' #
         map (\<lambda>a. AgentLine (fst a) (snd a)) (agents st2)"
    by (elim exE conjE)
  from r have r': "run_timeline ?V 1 [''climate change urgent action'', ''green jobs program''] ?st =
      Inr st2"
    by simp
  from c have c': "list_all2 (updated_once (eval_mode small_model) [tokens]) (agents st1) (agents st2)"
    by simp
  from d have d': "printed st2 = printed st1 @ StepLine 2 ''green jobs program'' #
         map (\<lambda>a. AgentLine (fst a) (snd a)) (agents st2)"
    by simp
  from a r' b c' d' show "\<exists>st1 st2 toks tokens.
      run_timeline ?V 1 [''climate change urgent action''] ?st = Inr st1 \<and>
      run_timeline ?V 1 [''climate change urgent action'', ''green jobs program''] ?st = Inr st2 \<and>
      encode ''green jobs program'' ?V = Inr toks \<and>
      pad_to_max toks = Inr tokens \<and>
      list_all2 (updated_once (eval_mode small_model) [tokens]) (agents st1) (agents st2) \<and>
      printed st2 = printed st1 @ StepLine 2 ''green jobs program'' #
         map (\<lambda>a. AgentLine (fst a) (snd a)) (agents st2)"
    by (intro exI [of _ st1] exI [of _ st2] exI [of _ toks] exI [of _ tokens] conjI)
  note t4 = t [of _ _ _ _ _ _ _ _ 1 small_model 7, THEN conjunct2, THEN conjunct2,
      THEN conjunct2, THEN mp, OF small_model_constructed]
  from t4 obtain st' where
    s: "simulation small_model 7 = Inr st'" and m: "model st' = eval_mode small_model" and
    n: "map fst (agents st') = [''Ava'', ''Ben'', ''Chen'']" and
    l: "list_all (\<lambda>name. length (opinions_of name (printed st')) = 5) [''Ava'', ''Ben'', ''Chen'']"
    by (elim exE conjE)
  from s have rs: "run_timeline ?V 1 timeline ?st = Inr st'"
    by (simp add: simulation_def)
  from t [of ?V 1 _ _ ?st _ timeline st', THEN conjunct2, THEN conjunct2, THEN conjunct1]
    rs small_model_eval
  have "generator st' = generator ?st" by simp
  with s m n l show "\<exists>st'. simulation small_model 7 = Inr st' \<and> model st' = eval_mode small_model \<and>
      generator st' = 7 \<and> map fst (agents st') = [''Ava'', ''Ben'', ''Chen''] \<and>
      length (opinions_of ''Ben'' (printed st')) = 5"
    by (intro exI [of _ st']) simp
qed

subsection \<open>An event with an unknown word\<close>

text \<open>
  Claim C7, as the code has it. \<open>encode\<close> raises \<^verbatim>\<open>KeyError\<close> (the spec's
  \<^verbatim>\<open>MissingWordError\<close>) exactly when some word of the text is no key of the vocabulary, and
  the error names such a word; otherwise it returns the ids of the words, in the order of
  the words. A caller could catch the exception, but no caller does: the loop calls
  \<open>encode\<close> at line 90 with no handler around it, nor is there one in \<open>main\<close> or around
  the call of \<open>main\<close>. So when the loop has run on some events and comes to an event with
  a word that is no key, the \<^verbatim>\<open>KeyError\<close> ends the run there, whatever events come after:
  it is the result of the whole loop, and leaves the script uncaught.
\<close>

theorem encode_KeyError_ends_run:
  "(if \<exists>w\<in>set (str_split text). map_of vocab w = None
    then \<exists>w\<in>set (str_split text). map_of vocab w = None \<and> encode text vocab = Inl (KeyError w)
    else encode text vocab = Inr (map (\<lambda>w. the (map_of vocab w)) (str_split text))) \<and>
   (run_timeline vocab step pre st = Inr st1 \<and>
      (\<exists>w\<in>set (str_split event). map_of vocab w = None) \<longrightarrow>
      (\<exists>w\<in>set (str_split event). map_of vocab w = None \<and>
         run_timeline vocab step (pre @ event # post) st = Inl (KeyError w)))"
proof (rule conjI)
  show "if \<exists>w\<in>set (str_split text). map_of vocab w = None
    then \<exists>w\<in>set (str_split text). map_of vocab w = None \<and> encode text vocab = Inl (KeyError w)
    else encode text vocab = Inr (map (\<lambda>w. the (map_of vocab w)) (str_split text))"
  proof (cases "\<exists>w\<in>set (str_split text). map_of vocab w = None")
    case True
    from mapE_lookup_absent [OF this] True show ?thesis
      by (simp add: encode_def)
  next
    case False
    then have "\<forall>w\<in>set (str_split text). map_of vocab w \<noteq> None" by simp
    from mapE_lookup_present [OF this] False show ?thesis
      by (simp add: encode_def)
  qed
  show "run_timeline vocab step pre st = Inr st1 \<and>
      (\<exists>w\<in>set (str_split event). map_of vocab w = None) \<longrightarrow>
      (\<exists>w\<in>set (str_split event). map_of vocab w = None \<and>
         run_timeline vocab step (pre @ event # post) st = Inl (KeyError w))"
  proof
    assume h: "run_timeline vocab step pre st = Inr st1 \<and>
      (\<exists>w\<in>set (str_split event). map_of vocab w = None)"
    then have "\<exists>w\<in>set (str_split event). map_of vocab w = None" by simp
    from mapE_lookup_absent [OF this] obtain w where
      w: "w \<in> set (str_split event)" "map_of vocab w = None" and
      e: "encode event vocab = Inl (KeyError w)"
      by (auto simp: encode_def)
    from h have "run_timeline vocab step (pre @ event # post) st =
        run_timeline vocab (step + length pre) (event # post) st1"
      by (simp add: run_timeline_append bindE_Inr)
    also have "\<dots> = Inl (KeyError w)"
      by (simp add: e bindE_def)
    finally show "\<exists>w\<in>set (str_split event). map_of vocab w = None \<and>
         run_timeline vocab step (pre @ event # post) st = Inl (KeyError w)"
      using w by blast
  qed
qed

theorem encode_KeyError_ends_run_witness:
  "encode ''tax hike'' [(''<pad>'', 0), (''tax'', 1)] = Inl (KeyError ''hike'') \<and>
   encode ''tax  tax'' [(''<pad>'', 0), (''tax'', 1)] = Inr [1, 1] \<and>
   run_timeline [(''<pad>'', 0), (''tax'', 1)] 1 [''tax hike'', ''tax'']
     \<lparr>model = tiny_model, agents = [(''Ava'', [0])], generator = 0, printed = []\<rparr> =
     Inl (KeyError ''hike'')"
proof -
  let ?V = "[(''<pad>'', 0), (''tax'', 1)] :: vocab"
  let ?st = "\<lparr>model = tiny_model, agents = [(''Ava'', [0])], generator = 0, printed = []\<rparr>"
  have s1: "str_split ''tax hike'' = [''tax'', ''hike'']"
    by (simp add: str_split_def isspace_def)
  have s2: "str_split ''tax  tax'' = [''tax'', ''tax'']"
    by (simp add: str_split_def isspace_def)
  have r0: "run_timeline ?V 1 [] ?st = Inr ?st"
    by simp
  note a = encode_KeyError_ends_run [of "''tax hike''" ?V 1 "[]" ?st ?st "''tax hike''" "[''tax'']"]
  note b = encode_KeyError_ends_run [of "''tax  tax''" ?V 1 "[]" ?st ?st "''tax hike''" "[''tax'']"]
  have ex: "\<exists>w\<in>set (str_split ''tax hike''). map_of ?V w = None"
    by (simp add: s1)
  from a [THEN conjunct1] have c1: "encode ''tax hike'' ?V = Inl (KeyError ''hike'')"
    by (simp add: s1)
  from b [THEN conjunct1] have c2: "encode ''tax  tax'' ?V = Inr [1, 1]"
    by (simp add: s2)
  from a [THEN conjunct2, THEN mp, OF conjI [OF r0 ex]] obtain w where
    w: "w \<in> set (str_split ''tax hike'')" "map_of ?V w = None" and
    r: "run_timeline ?V 1 ([] @ ''tax hike'' # [''tax'']) ?st = Inl (KeyError w)"
    by (elim bexE conjE)
  from w have "w = ''hike''"
    by (auto simp: s1)
  with r have c3: "run_timeline ?V 1 [''tax hike'', ''tax''] ?st = Inl (KeyError ''hike'')"
    by (simp only: append_Nil)
  from c1 c2 c3 show ?thesis by (intro conjI)
qed

text \<open>
  Claim C7 as the spec words it has the missing word surfaced as a reported error rather
  than an unhandled one. In the loop of the script it is not: on a timeline whose second
  event has the word \<^verbatim>\<open>hike\<close>, which is no key, the first event is processed and the run
  then ends with the \<^verbatim>\<open>KeyError\<close> itself; the third event is never reached.
\<close>

theorem run_timeline_KeyError_counterexample:
  "run_timeline [(''<pad>'', 0), (''tax'', 1)] 1 [''tax'', ''tax hike'', ''tax'']
     \<lparr>model = tiny_model, agents = [(''Ava'', [0])], generator = 0, printed = []\<rparr> =
     Inl (KeyError ''hike'')"
proof -
  let ?V = "[(''<pad>'', 0), (''tax'', 1)] :: vocab"
  have s1: "str_split ''tax hike'' = [''tax'', ''hike'']"
    by (simp add: str_split_def isspace_def)
  have s2: "str_split ''tax'' = [''tax'']"
    by (simp add: str_split_def isspace_def)
  have e1: "encode ''tax'' ?V = Inr [1]"
    by (simp add: encode_def s2 lookup_def bindE_def)
  have e2: "encode ''tax hike'' ?V = Inl (KeyError ''hike'')"
    by (simp add: encode_def s1 lookup_def bindE_def)
  have p: "pad_to_max [1] = Inr [1, 0, 0, 0, 0, 0]"
    by (simp add: pad_to_max_def MAX_LEN_def PAD_IDX_def numeral_eq_Suc)
  have f: "forward tiny_model 0 [[1, 0, 0, 0, 0, 0]] [[0]] = Inr ([[0]], 0)"
    by (simp add: forward_def tiny_model_def zero_encoder_def embedding_def
      pool_def masked_fill_def broadcast_def lengths_of_def count_nonpad_def sum_dim1_def
      true_divide_def linear_def dot_def mat_add_def vec_add_def bindE_def PAD_IDX_def
      torch_tanh_def fl_def)
  have b: "blend [0] [0] = Inr [0]"
    by (simp add: blend_def broadcast_def blend1_def f32_def fl_def bindE_def)
  show ?thesis
    by (simp add: e1 e2 p f b squeeze0_def bindE_def)
qed

end
